theory Spec2Isabelle
  imports Main
begin

section \<open>Python values used by the cipher tools\<close>

text \<open>
  The exceptions that the modelled functions can raise. A failing \<^verbatim>\<open>assert\<close> is
  \<open>AssertionError\<close>; reading position 0 of an empty list is \<open>IndexError\<close>; a missing
  dictionary key is \<open>KeyError\<close>; \<^verbatim>\<open>str.index\<close> without a match is \<open>ValueError\<close>;
  dividing by zero is \<open>ZeroDivisionError\<close>.
\<close>

datatype error = AssertionError | IndexError | KeyError | ValueError | ZeroDivisionError

text \<open>
  A character is a code point in the range 0..255, so a \<open>string\<close> is a Python \<^verbatim>\<open>str\<close>
  whose code points all lie in that range. \<open>py_ord\<close> is \<^verbatim>\<open>ord\<close>; \<open>py_chr\<close> is \<^verbatim>\<open>chr\<close>,
  which the code only calls on values between 65 and 122.
\<close>

definition py_ord :: "char \<Rightarrow> int" where
  "py_ord c = of_char c"

definition py_chr :: "int \<Rightarrow> char" where
  "py_chr n = char_of n"

text \<open>
  \<^verbatim>\<open>s[i:j]\<close>: a negative bound counts from the end, and both bounds are clamped to
  the sequence, so a slice never raises.
\<close>

definition py_slice_bound :: "nat \<Rightarrow> int \<Rightarrow> nat" where
  "py_slice_bound n i = (if i < 0 then nat (i + int n) else min (nat i) n)"

definition py_slice :: "'a list \<Rightarrow> int \<Rightarrow> int \<Rightarrow> 'a list" where
  "py_slice s i j =
     (let lo = py_slice_bound (length s) i; hi = py_slice_bound (length s) j
      in take (hi - lo) (drop lo s))"

text \<open>
  \<^verbatim>\<open>str.lower\<close> on code points below 256: the upper-case letters are A..Z, and in the
  Latin-1 block 192..222 except the multiplication sign 215; each is 32 below its
  lower-case form, so lower-casing keeps the length of such a string. Above 255 that
  is no longer so (the lower-case form of U+0130 has two code points); the statements
  about keys below are therefore about alphabetic keys, the Latin letters, on which
  the model is \<^verbatim>\<open>str.lower\<close>.
\<close>

definition lower_char :: "char \<Rightarrow> char" where
  "lower_char c =
     (let n = py_ord c
      in if (65 \<le> n \<and> n \<le> 90) \<or> (192 \<le> n \<and> n \<le> 222 \<and> n \<noteq> 215) then py_chr (n + 32) else c)"

definition lower :: "string \<Rightarrow> string" where
  "lower s = map lower_char s"

section \<open>cipher\_tools.py: Caesar and Vigenere\<close>

definition rotate_letter :: "char \<Rightarrow> int \<Rightarrow> char" where
  "rotate_letter letter rotate_by =
     (if py_ord CHR ''a'' \<le> py_ord letter \<and> py_ord letter < py_ord CHR ''z'' + 1 then
        py_chr (((py_ord letter - py_ord CHR ''a'' + rotate_by) mod 26) + py_ord CHR ''a'')
      else if py_ord CHR ''A'' \<le> py_ord letter \<and> py_ord letter < py_ord CHR ''Z'' + 1 then
        py_chr (((py_ord letter - py_ord CHR ''A'' + rotate_by) mod 26) + py_ord CHR ''A'')
      else letter)"

text \<open>
  \<open>vigenere_encode\<close>: the assertion on the lengths comes first; the key is then
  lower-cased and turned into shift amounts; \<^verbatim>\<open>len(text)/len(key)\<close> raises
  ZeroDivisionError on an empty key; the shifts are repeated to the length of the text
  and applied letter by letter. The source takes the quotient on floats and floors it;
  for the lengths of strings that fit in memory that is the integer quotient.
\<close>

definition vigenere_encode :: "string \<Rightarrow> string \<Rightarrow> error + string" where
  "vigenere_encode text key =
     (if \<not> length key \<le> length text then Inl AssertionError
      else
        let key1 = lower key;
            key_list = map (\<lambda>x. py_ord x - py_ord CHR ''a'') key1
        in if length key1 = 0 then Inl ZeroDivisionError
           else
             let key_text_list =
                   concat (replicate (length text div length key1) key_list)
                   @ py_slice key_list 0 (int (length text mod length key1))
             in Inr (map (\<lambda>x. rotate_letter (text ! x) (key_text_list ! x)) [0..<length text]))"

text \<open>
  \<open>vigenere_decode\<close>: the same assertion, then the key mirrored around \<^verbatim>\<open>a\<close>, then
  \<open>vigenere_encode\<close> with the mirrored key. The source also prints the mirrored key.
\<close>

definition vigenere_decode :: "string \<Rightarrow> string \<Rightarrow> error + string" where
  "vigenere_decode crypt_text key =
     (if \<not> length key \<le> length crypt_text then Inl AssertionError
      else
        let key1 = lower key;
            decryption_key =
              map (\<lambda>each. py_chr ((26 - (py_ord each - py_ord CHR ''a'')) mod 26 + py_ord CHR ''a'')) key1
        in vigenere_encode crypt_text decryption_key)"

section \<open>vigenere\_cracking.py: pattern tables\<close>

text \<open>
  A pattern table is a Python \<^verbatim>\<open>dict\<close> from patterns to lists of positions. A dict
  keeps its keys in insertion order and the loops of the source run over the keys in
  that order, so the table is an association list: \<open>dict_set\<close> is \<^verbatim>\<open>d[k] = v\<close>
  (an existing key keeps its place, a new key goes to the end) and \<open>dict_del\<close> is
  \<^verbatim>\<open>del d[k]\<close>, which raises KeyError on a missing key. The keys of a dict are
  distinct; \<open>is_dict\<close> says so. Where the source loops over \<^verbatim>\<open>d.keys()\<close> and reads
  \<^verbatim>\<open>d[key]\<close> in the body, without changing \<^verbatim>\<open>d\<close>, the model loops over the pairs.
\<close>

type_synonym pattern_table = "(string \<times> int list) list"

definition is_dict :: "('k \<times> 'v) list \<Rightarrow> bool" where
  "is_dict d = distinct (map fst d)"

fun dict_set :: "('k \<times> 'v) list \<Rightarrow> 'k \<Rightarrow> 'v \<Rightarrow> ('k \<times> 'v) list" where
  "dict_set [] k v = [(k, v)]"
| "dict_set ((k1, v1) # d) k v = (if k1 = k then (k, v) # d else (k1, v1) # dict_set d k v)"

definition dict_del :: "('k \<times> 'v) list \<Rightarrow> 'k \<Rightarrow> error + ('k \<times> 'v) list" where
  "dict_del d k = (if k \<in> set (map fst d) then Inr (filter (\<lambda>kv. fst kv \<noteq> k) d) else Inl KeyError)"

text \<open>
  \<^verbatim>\<open>d[k].append(x)\<close> for a key that is present; the source calls it only after
  it has found the key or stored it.
\<close>

fun dict_append :: "('k \<times> 'v list) list \<Rightarrow> 'k \<Rightarrow> 'v \<Rightarrow> ('k \<times> 'v list) list" where
  "dict_append [] k x = []"
| "dict_append ((k1, v1) # d) k x =
     (if k1 = k then (k1, v1 @ [x]) # d else (k1, v1) # dict_append d k x)"

text \<open>
  \<^verbatim>\<open>sub in s\<close> and \<^verbatim>\<open>s.index(sub)\<close> on strings: the second returns the lowest position
  at which \<open>sub\<close> starts and raises ValueError when there is none.
\<close>

fun str_contains :: "string \<Rightarrow> string \<Rightarrow> bool" where
  "str_contains [] sub = (sub = [])"
| "str_contains (c # s) sub = (take (length sub) (c # s) = sub \<or> str_contains s sub)"

fun str_index :: "string \<Rightarrow> string \<Rightarrow> error + int" where
  "str_index [] sub = (if sub = [] then Inr 0 else Inl ValueError)"
| "str_index (c # s) sub =
     (if take (length sub) (c # s) = sub then Inr 0
      else case str_index s sub of Inl e \<Rightarrow> Inl e | Inr i \<Rightarrow> Inr (i + 1))"

text \<open>
  \<^verbatim>\<open>list(s)\<close> for a set \<open>s\<close> of integers. CPython leaves the order open; the model
  lists the elements in ascending order.
\<close>

definition py_list_of_set :: "int set \<Rightarrow> int list" where
  "py_list_of_set s = sorted_list_of_set s"

subsection \<open>find\_matches\<close>

fun find_matches :: "string \<Rightarrow> string \<Rightarrow> int list \<Rightarrow> int list" where
  "find_matches crypt_text pattern [] = []"
| "find_matches crypt_text pattern (each # candidate_locations) =
     (if each + int (length pattern) > int (length crypt_text) then
        find_matches crypt_text pattern candidate_locations
      else if py_slice crypt_text each (each + int (length pattern)) = pattern then
        each # find_matches crypt_text pattern candidate_locations
      else find_matches crypt_text pattern candidate_locations)"

subsection \<open>get\_pattern\_distances and get\_factors\<close>

text \<open>
  For each pattern the differences of neighbouring positions are collected in a set; a
  pattern with more than one difference is skipped; otherwise the first element of the
  set is appended, which raises IndexError when the set is empty.
\<close>

fun pattern_distances_loop :: "pattern_table \<Rightarrow> int list \<Rightarrow> error + int list" where
  "pattern_distances_loop [] pattern_distances = Inr pattern_distances"
| "pattern_distances_loop ((each_pattern, indices) # rest) pattern_distances =
     (let a = py_slice indices 0 (- 1);
          b = py_slice indices 1 (int (length indices));
          deltas = set (map (\<lambda>(x, y). x - y) (zip b a))
      in if card deltas > 1 then pattern_distances_loop rest pattern_distances
         else (case py_list_of_set deltas of
                 [] \<Rightarrow> Inl IndexError
               | d # _ \<Rightarrow> pattern_distances_loop rest (pattern_distances @ [d])))"

definition get_pattern_distances :: "pattern_table \<Rightarrow> error + int list" where
  "get_pattern_distances patterns =
     (case pattern_distances_loop patterns [] of
        Inl e \<Rightarrow> Inl e
      | Inr pattern_distances \<Rightarrow> Inr (py_list_of_set (set pattern_distances)))"

definition get_factors :: "int \<Rightarrow> int list" where
  "get_factors number = filter (\<lambda>i. number mod i = 0) [1..number]"

subsection \<open>maximize\_patterns\<close>

text \<open>
  The two nested loops of \<open>maximize_patterns\<close> carry the flag \<^verbatim>\<open>changed\<close> and the
  dict \<^verbatim>\<open>new_patterns\<close>. The inner loop runs over the positions of one pattern, the
  outer one over the patterns.
\<close>

fun maximize_occurrences ::
  "string \<Rightarrow> int list \<Rightarrow> int \<Rightarrow> int list \<Rightarrow> bool \<times> pattern_table \<Rightarrow> bool \<times> pattern_table" where
  "maximize_occurrences crypt_text occ tentative_pattern_length [] st = st"
| "maximize_occurrences crypt_text occ tentative_pattern_length (index # rest) st =
     (let tentative_pattern = py_slice crypt_text index (index + tentative_pattern_length);
          matches = find_matches crypt_text tentative_pattern occ
      in maximize_occurrences crypt_text occ tentative_pattern_length rest
           (if length matches > 1 then (True, dict_set (snd st) tentative_pattern matches) else st))"

fun maximize_scan ::
  "string \<Rightarrow> int \<Rightarrow> pattern_table \<Rightarrow> bool \<times> pattern_table \<Rightarrow> bool \<times> pattern_table" where
  "maximize_scan crypt_text maximum_pattern_length [] st = st"
| "maximize_scan crypt_text maximum_pattern_length ((each_pattern, occ) # rest) st =
     (let tentative_pattern_length = int (length each_pattern) + 1
      in if tentative_pattern_length > maximum_pattern_length then
           maximize_scan crypt_text maximum_pattern_length rest st
         else
           maximize_scan crypt_text maximum_pattern_length rest
             (maximize_occurrences crypt_text occ tentative_pattern_length occ st))"

text \<open>The loop that copies the result of the recursive call into \<^verbatim>\<open>patterns\<close>.\<close>

definition merge_patterns :: "pattern_table \<Rightarrow> pattern_table \<Rightarrow> pattern_table" where
  "merge_patterns patterns recursive_patterns =
     fold (\<lambda>kv d. dict_set d (fst kv) (snd kv)) recursive_patterns patterns"

text \<open>
  \<open>maximize_patterns\<close> updates the table it is given and returns it. Its recursion
  has no evident bound, so the result is an option: \<open>None\<close> is a call that does not
  return.
\<close>

partial_function (option) maximize_patterns ::
  "string \<Rightarrow> pattern_table \<Rightarrow> int \<Rightarrow> pattern_table option" where
  "maximize_patterns crypt_text patterns maximum_pattern_length =
     (let st = maximize_scan crypt_text maximum_pattern_length patterns (False, [])
      in if fst st then
           Option.bind (maximize_patterns crypt_text (snd st) maximum_pattern_length)
             (\<lambda>recursive_patterns. Some (merge_patterns patterns recursive_patterns))
         else Some patterns)"

declare maximize_patterns.simps [code]

subsection \<open>initialize\_patterns\<close>

fun initialize_scan :: "string \<Rightarrow> int \<Rightarrow> nat list \<Rightarrow> pattern_table \<Rightarrow> pattern_table" where
  "initialize_scan crypt_text minimum_pattern_length [] patterns = patterns"
| "initialize_scan crypt_text minimum_pattern_length (index # rest) patterns =
     (if int index + minimum_pattern_length > int (length crypt_text) then patterns
      else
        let current_pattern = py_slice crypt_text (int index) (int index + minimum_pattern_length)
        in initialize_scan crypt_text minimum_pattern_length rest
             (if current_pattern \<in> set (map fst patterns) then
                dict_append patterns current_pattern (int index)
              else dict_append (dict_set patterns current_pattern []) current_pattern (int index)))"

text \<open>
  \<^verbatim>\<open>sorted(..., key=lambda x: len(x[1]), reverse=True)\<close> is a stable sort by
  descending number of positions; the copying loop stops at the first pattern with at
  most one position. The pairs come from a dict, so copying them into the empty dict
  \<^verbatim>\<open>copy_patterns\<close> gives the same pairs in the same order.
\<close>

definition initialize_patterns :: "string \<Rightarrow> int \<Rightarrow> pattern_table" where
  "initialize_patterns crypt_text minimum_pattern_length =
     (let patterns = initialize_scan crypt_text minimum_pattern_length [0..<length crypt_text] [];
          sorted_patterns = sort_key (\<lambda>x. - int (length (snd x))) patterns
      in takeWhile (\<lambda>each_pair. \<not> length (snd each_pair) \<le> 1) sorted_patterns)"

subsection \<open>remove\_redundant\_patterns\<close>

text \<open>
  The inner loop for one suspect: \<open>True\<close> when some larger pattern explains every
  position of the suspect (the \<^verbatim>\<open>break\<close>), \<open>False\<close> when the loop runs to its end.
\<close>

fun redundant_in :: "string \<times> int list \<Rightarrow> pattern_table \<Rightarrow> error + bool" where
  "redundant_in suspect [] = Inr False"
| "redundant_in suspect ((larger_key, larger_occ) # rest) =
     (if length (fst suspect) \<ge> length larger_key then redundant_in suspect rest
      else if \<not> str_contains larger_key (fst suspect) then redundant_in suspect rest
      else if length (snd suspect) \<noteq> length larger_occ then redundant_in suspect rest
      else
        (case str_index larger_key (fst suspect) of
           Inl e \<Rightarrow> Inl e
         | Inr difference \<Rightarrow>
             (case (if difference > 0 then Inr (map (\<lambda>x. x - difference) (snd suspect))
                    else if difference = 0 then Inr (snd suspect)
                    else Inl AssertionError) of
                Inl e \<Rightarrow> Inl e
              | Inr adjusted \<Rightarrow>
                  if adjusted = larger_occ then Inr True else redundant_in suspect rest)))"

text \<open>
  The outer loop returns \<^verbatim>\<open>keys_to_delete\<close>; \<^verbatim>\<open>changed\<close> is set exactly when a key
  is appended, so it is true exactly when that list is not empty.
\<close>

fun redundant_keys :: "pattern_table \<Rightarrow> pattern_table \<Rightarrow> error + string list" where
  "redundant_keys non_redundant_patterns [] = Inr []"
| "redundant_keys non_redundant_patterns (suspect # rest) =
     (case redundant_in suspect non_redundant_patterns of
        Inl e \<Rightarrow> Inl e
      | Inr found \<Rightarrow>
          (case redundant_keys non_redundant_patterns rest of
             Inl e \<Rightarrow> Inl e
           | Inr keys_to_delete \<Rightarrow> Inr (if found then fst suspect # keys_to_delete else keys_to_delete)))"

fun delete_keys :: "pattern_table \<Rightarrow> string list \<Rightarrow> error + pattern_table" where
  "delete_keys non_redundant_patterns [] = Inr non_redundant_patterns"
| "delete_keys non_redundant_patterns (each_key # rest) =
     (case dict_del non_redundant_patterns each_key of
        Inl e \<Rightarrow> Inl e
      | Inr d \<Rightarrow> delete_keys d rest)"

text \<open>
  \<open>remove_redundant_patterns\<close> works on a deep copy of its argument, which as a value
  is the argument; every recursive call has deleted at least one key.
\<close>

function remove_redundant_patterns :: "pattern_table \<Rightarrow> error + pattern_table" where
  "remove_redundant_patterns patterns =
     (case redundant_keys patterns patterns of
        Inl e \<Rightarrow> Inl e
      | Inr keys_to_delete \<Rightarrow>
          if keys_to_delete \<noteq> [] then
            (case delete_keys patterns keys_to_delete of
               Inl e \<Rightarrow> Inl e
             | Inr non_redundant_patterns \<Rightarrow> remove_redundant_patterns non_redundant_patterns)
          else Inr patterns)"
  by pat_completeness auto
termination
proof (relation "measure length")
  show "wf (measure (length :: pattern_table \<Rightarrow> nat))" by simp
next
  fix patterns :: pattern_table and keys_to_delete non_redundant_patterns
  assume nonempty: "keys_to_delete \<noteq> []"
    and deleted: "delete_keys patterns keys_to_delete = Inr non_redundant_patterns"
  have one: "length d1 < length d" if "dict_del d k = Inr d1"
    for d d1 :: pattern_table and k
  proof -
    from that have k: "k \<in> set (map fst d)" and d1: "d1 = filter (\<lambda>kv. fst kv \<noteq> k) d"
      by (auto simp: dict_del_def split: if_splits)
    from k obtain kv where "kv \<in> set d" "\<not> fst kv \<noteq> k" by auto
    then show ?thesis unfolding d1 by (rule length_filter_less)
  qed
  have many: "delete_keys d ks = Inr d1 \<Longrightarrow> length d1 \<le> length d"
    for d d1 :: pattern_table and ks
  proof (induction ks arbitrary: d)
    case Nil
    then show ?case by simp
  next
    case (Cons k ks)
    then show ?case by (fastforce split: sum.splits dest: one)
  qed
  from nonempty deleted have "length non_redundant_patterns < length patterns"
    by (cases keys_to_delete) (fastforce split: sum.splits dest: one many)+
  then show "(non_redundant_patterns, patterns) \<in> measure length" by simp
qed

subsection \<open>remove\_redundant\_patterns on a store\<close>

text \<open>
  To speak about what a call does to its argument, the dicts live in a store: a list of
  pattern tables, with the position of a table as its reference. \<^verbatim>\<open>copy.deepcopy\<close>
  puts a copy at a fresh reference and \<^verbatim>\<open>del d[k]\<close> changes the table at the
  reference \<open>d\<close>. The lists of positions inside a table are never changed by this
  function, so they stay values. A call returns what it raises or the reference it
  returns, together with the store it leaves behind.
\<close>

type_synonym store = "pattern_table list"

fun delete_keys_store :: "store \<Rightarrow> nat \<Rightarrow> string list \<Rightarrow> (error + unit) \<times> store" where
  "delete_keys_store h non_redundant_patterns [] = (Inr (), h)"
| "delete_keys_store h non_redundant_patterns (each_key # rest) =
     (case dict_del (h ! non_redundant_patterns) each_key of
        Inl e \<Rightarrow> (Inl e, h)
      | Inr d \<Rightarrow> delete_keys_store (h[non_redundant_patterns := d]) non_redundant_patterns rest)"

function remove_redundant_patterns_store :: "store \<Rightarrow> nat \<Rightarrow> (error + nat) \<times> store" where
  "remove_redundant_patterns_store h patterns =
     (let non_redundant_patterns = length h;
          h1 = h @ [h ! patterns]
      in case redundant_keys (h1 ! non_redundant_patterns) (h1 ! non_redundant_patterns) of
           Inl e \<Rightarrow> (Inl e, h1)
         | Inr keys_to_delete \<Rightarrow>
             if keys_to_delete \<noteq> [] then
               (case delete_keys_store h1 non_redundant_patterns keys_to_delete of
                  (Inl e, h2) \<Rightarrow> (Inl e, h2)
                | (Inr u, h2) \<Rightarrow> remove_redundant_patterns_store h2 non_redundant_patterns)
             else (Inr non_redundant_patterns, h1))"
  by pat_completeness auto
termination
proof (relation "measure (\<lambda>(h, patterns). length (h ! patterns))")
  show "wf (measure (\<lambda>(h :: store, patterns). length (h ! patterns)))" by simp
next
  fix h :: store and patterns non_redundant_patterns h1 keys_to_delete res u h2
  assume nrp: "non_redundant_patterns = length h"
    and h1: "h1 = h @ [h ! patterns]"
    and nonempty: "keys_to_delete \<noteq> []"
    and res: "(res, h2) = delete_keys_store h1 non_redundant_patterns keys_to_delete"
    and ok: "res = Inr u"
  have one: "length d1 < length d" if "dict_del d k = Inr d1"
    for d d1 :: pattern_table and k
  proof -
    from that have k: "k \<in> set (map fst d)" and d1: "d1 = filter (\<lambda>kv. fst kv \<noteq> k) d"
      by (auto simp: dict_del_def split: if_splits)
    from k obtain kv where "kv \<in> set d" "\<not> fst kv \<noteq> k" by auto
    then show ?thesis unfolding d1 by (rule length_filter_less)
  qed
  have many: "delete_keys_store g a ks = (Inr v, g1) \<Longrightarrow> a < length g
      \<Longrightarrow> length (g1 ! a) \<le> length (g ! a)"
    for g g1 :: store and a ks v
  proof (induction ks arbitrary: g)
    case Nil
    then show ?case by simp
  next
    case (Cons k ks)
    then show ?case by (fastforce split: sum.splits dest: one)
  qed
  have a: "non_redundant_patterns < length h1" using nrp h1 by simp
  have same: "h1 ! non_redundant_patterns = h ! patterns" using nrp h1 by simp
  from nonempty obtain k ks where ks: "keys_to_delete = k # ks" by (cases keys_to_delete) auto
  from ok res[symmetric] ks obtain d where d: "dict_del (h1 ! non_redundant_patterns) k = Inr d"
    and rest: "delete_keys_store (h1[non_redundant_patterns := d]) non_redundant_patterns ks = (Inr u, h2)"
    by (auto split: sum.splits)
  from many[OF rest] a have "length (h2 ! non_redundant_patterns) \<le> length d" by simp
  with one[OF d] same have "length (h2 ! non_redundant_patterns) < length (h ! patterns)" by simp
  then show "((h2, non_redundant_patterns), (h, patterns))
      \<in> measure (\<lambda>(h, patterns). length (h ! patterns))" by simp
qed

declare remove_redundant_patterns.simps [simp del]

declare remove_redundant_patterns_store.simps [simp del]

subsection \<open>vigenere\_kasiski\_test\<close>

text \<open>
  The pipeline. \<open>None\<close> is a run whose maximize step does not return; \<open>Some (Inl e)\<close>
  is a run that raises \<open>e\<close>. Reading \<^verbatim>\<open>factors_of_distances[0]\<close> raises IndexError on
  an empty list.
\<close>

definition intersect_factors :: "int list list \<Rightarrow> error + int list" where
  "intersect_factors factors_of_distances =
     (case factors_of_distances of
        [] \<Rightarrow> Inl IndexError
      | first # others \<Rightarrow>
          Inr (rev (sort (foldl (\<lambda>possible_key_lengths each_set.
                 py_list_of_set (set possible_key_lengths \<inter> set each_set)) first others))))"

definition vigenere_kasiski_test :: "string \<Rightarrow> int \<Rightarrow> int \<Rightarrow> (error + int list) option" where
  "vigenere_kasiski_test crypt_text minimum_pattern_length maximum_pattern_length =
     (case maximize_patterns crypt_text
             (initialize_patterns crypt_text minimum_pattern_length) maximum_pattern_length of
        None \<Rightarrow> None
      | Some maximized \<Rightarrow>
          Some (case remove_redundant_patterns maximized of
                  Inl e \<Rightarrow> Inl e
                | Inr patterns \<Rightarrow>
                    (case get_pattern_distances patterns of
                       Inl e \<Rightarrow> Inl e
                     | Inr distances \<Rightarrow>
                         let pattern_distances = py_list_of_set (set distances);
                             factors_of_distances = map get_factors pattern_distances
                         in intersect_factors factors_of_distances)))"

section \<open>Predicates for the statements\<close>

text \<open>
  An alphabetic key: every character of the key is one of the Latin letters a..z or
  A..Z.
\<close>

definition is_alphabetic :: "string \<Rightarrow> bool" where
  "is_alphabetic key =
     list_all (\<lambda>c. (97 \<le> py_ord c \<and> py_ord c \<le> 122) \<or> (65 \<le> py_ord c \<and> py_ord c \<le> 90)) key"

text \<open>
  A valid occurrence-index list: every index in the list is a position of the
  ciphertext at which the pattern starts. A table is valid when all its lists are; it
  is uniform when all its patterns have one length.
\<close>

definition occurs_at :: "string \<Rightarrow> string \<Rightarrow> int \<Rightarrow> bool" where
  "occurs_at crypt_text pattern i \<longleftrightarrow>
     0 \<le> i \<and> i + int (length pattern) \<le> int (length crypt_text)
     \<and> py_slice crypt_text i (i + int (length pattern)) = pattern"

definition valid_table :: "string \<Rightarrow> pattern_table \<Rightarrow> bool" where
  "valid_table crypt_text t \<longleftrightarrow>
     list_all (\<lambda>entry. list_all (occurs_at crypt_text (fst entry)) (snd entry)) t"

definition uniform_table :: "nat \<Rightarrow> pattern_table \<Rightarrow> bool" where
  "uniform_table m t \<longleftrightarrow> list_all (\<lambda>entry. length (fst entry) = m) t"

text \<open>A list of positions in strictly ascending order with at least two entries.\<close>

definition ascending_pair :: "int list \<Rightarrow> bool" where
  "ascending_pair occ \<longleftrightarrow> 2 \<le> length occ \<and> sorted_wrt (<) occ"

text \<open>
  One step of the two loops of \<open>maximize_patterns\<close>: the entry \<open>e\<close> is what the
  loops store for the pattern \<open>base\<close> at one of its positions.
\<close>

definition extension :: "string \<Rightarrow> int \<Rightarrow> string \<times> int list \<Rightarrow> string \<times> int list \<Rightarrow> bool" where
  "extension crypt_text maximum_pattern_length base e \<longleftrightarrow>
     int (length (fst base)) + 1 \<le> maximum_pattern_length
     \<and> list_ex (\<lambda>i. fst e = py_slice crypt_text i (i + (int (length (fst base)) + 1))) (snd base)
     \<and> snd e = find_matches crypt_text (fst e) (snd base)
     \<and> 1 < length (snd e)"

text \<open>
  A table on which the recursion cannot stop: it is valid, no pattern is shorter than
  \<open>m\<close>, \<open>m\<close> is below the maximum, and some pattern of length \<open>m\<close> has at least
  two positions, one of them \<open>m\<close> characters before the end of the ciphertext.
\<close>

definition stuck :: "string \<Rightarrow> int \<Rightarrow> nat \<Rightarrow> pattern_table \<Rightarrow> bool" where
  "stuck crypt_text maximum_pattern_length m t \<longleftrightarrow>
     valid_table crypt_text t
     \<and> list_all (\<lambda>entry. m \<le> length (fst entry)) t
     \<and> int m < maximum_pattern_length
     \<and> list_ex (\<lambda>entry. length (fst entry) = m \<and> 2 \<le> length (snd entry)
                   \<and> int (length crypt_text) - int m \<in> set (snd entry)) t"

section \<open>Vigenere: the round trip and the failures\<close>

lemma py_ord_chr: "0 \<le> n \<Longrightarrow> n < 256 \<Longrightarrow> py_ord (py_chr n) = n"
  by (simp add: py_ord_def py_chr_def)

lemma py_chr_ord: "py_chr (py_ord c) = c"
  by (simp add: py_ord_def py_chr_def)

lemma ord_a: "py_ord CHR ''a'' = 97" and ord_z: "py_ord CHR ''z'' = 122"
  and ord_A: "py_ord CHR ''A'' = 65" and ord_Z: "py_ord CHR ''Z'' = 90"
  by (simp_all add: py_ord_def)

lemma rotate_lower:
  "97 \<le> py_ord c \<Longrightarrow> py_ord c \<le> 122 \<Longrightarrow>
   rotate_letter c k = py_chr ((py_ord c - 97 + k) mod 26 + 97)"
  by (simp add: rotate_letter_def ord_a ord_z)

lemma rotate_upper:
  "65 \<le> py_ord c \<Longrightarrow> py_ord c \<le> 90 \<Longrightarrow>
   rotate_letter c k = py_chr ((py_ord c - 65 + k) mod 26 + 65)"
  by (simp add: rotate_letter_def ord_a ord_z ord_A ord_Z)

lemma rotate_other:
  "\<not> (97 \<le> py_ord c \<and> py_ord c \<le> 122) \<Longrightarrow> \<not> (65 \<le> py_ord c \<and> py_ord c \<le> 90) \<Longrightarrow>
   rotate_letter c k = c"
  by (auto simp: rotate_letter_def ord_a ord_z ord_A ord_Z)

lemma shift_cancel: "((x + k) mod 26 + (26 - k) mod 26) mod 26 = x mod (26::int)"
proof -
  have "((x + k) mod 26 + (26 - k) mod 26) mod 26 = ((x + k) + (26 - k)) mod 26"
    by (simp add: mod_add_eq)
  also have "\<dots> = (x + 26) mod 26" by (simp add: algebra_simps)
  also have "\<dots> = x mod 26" by simp
  finally show ?thesis .
qed

lemma rotate_letter_inverse:
  "rotate_letter (rotate_letter c k) ((26 - k) mod 26) = c"
proof -
  have m: "0 \<le> x mod 26 \<and> x mod 26 < 26" for x :: int by simp
  consider (lower) "97 \<le> py_ord c \<and> py_ord c \<le> 122"
    | (upper) "65 \<le> py_ord c \<and> py_ord c \<le> 90"
    | (other) "\<not> (97 \<le> py_ord c \<and> py_ord c \<le> 122) \<and> \<not> (65 \<le> py_ord c \<and> py_ord c \<le> 90)"
    by blast
  then show ?thesis
  proof cases
    case lower
    let ?r = "(py_ord c - 97 + k) mod 26 + 97"
    have r: "97 \<le> ?r \<and> ?r \<le> 122" using m[of "py_ord c - 97 + k"] by linarith
    have first: "rotate_letter c k = py_chr ?r"
      using lower by (simp add: rotate_lower)
    have ordr: "py_ord (py_chr ?r) = ?r" using r by (intro py_ord_chr) linarith+
    have "rotate_letter (py_chr ?r) ((26 - k) mod 26)
        = py_chr ((?r - 97 + (26 - k) mod 26) mod 26 + 97)"
      using r rotate_lower[of "py_chr ?r" "(26 - k) mod 26"] unfolding ordr by blast
    also have "(?r - 97 + (26 - k) mod 26) mod 26 = (py_ord c - 97) mod 26"
      using shift_cancel[of "py_ord c - 97" k] by simp
    also have "(py_ord c - 97) mod 26 = py_ord c - 97" using lower by simp
    finally show ?thesis using first by (simp add: py_chr_ord)
  next
    case upper
    let ?r = "(py_ord c - 65 + k) mod 26 + 65"
    have r: "65 \<le> ?r \<and> ?r \<le> 90" using m[of "py_ord c - 65 + k"] by linarith
    have first: "rotate_letter c k = py_chr ?r"
      using upper by (simp add: rotate_upper)
    have ordr: "py_ord (py_chr ?r) = ?r" using r by (intro py_ord_chr) linarith+
    have "rotate_letter (py_chr ?r) ((26 - k) mod 26)
        = py_chr ((?r - 65 + (26 - k) mod 26) mod 26 + 65)"
      using r rotate_upper[of "py_chr ?r" "(26 - k) mod 26"] unfolding ordr by blast
    also have "(?r - 65 + (26 - k) mod 26) mod 26 = (py_ord c - 65) mod 26"
      using shift_cancel[of "py_ord c - 65" k] by simp
    also have "(py_ord c - 65) mod 26 = py_ord c - 65" using upper by simp
    finally show ?thesis using first by (simp add: py_chr_ord)
  next
    case other
    then show ?thesis by (simp add: rotate_other)
  qed
qed

lemma lower_length: "length (lower k) = length k"
  by (simp add: lower_def)

lemma lower_Nil_iff: "lower k = [] \<longleftrightarrow> k = []"
  by (simp add: lower_def)

lemma py_slice_take: "py_slice xs 0 (int n) = take n xs"
  by (simp add: py_slice_def py_slice_bound_def Let_def min_def)

lemma key_stream_length:
  "kl \<noteq> [] \<Longrightarrow> length (concat (replicate (n div length kl) kl) @ take (n mod length kl) kl) = n"
proof -
  assume "kl \<noteq> []"
  then have "n mod length kl < length kl" by simp
  then have "length (take (n mod length kl) kl) = n mod length kl" by simp
  moreover have "length (concat (replicate (n div length kl) kl)) = (n div length kl) * length kl"
    by (induction "n div length kl" arbitrary: n) (simp_all add: length_concat sum_list_replicate)
  ultimately show ?thesis by simp
qed

lemma key_stream_map:
  "concat (replicate q (map f kl)) @ take r (map f kl)
     = map f (concat (replicate q kl) @ take r kl)"
  by (simp add: map_concat take_map map_replicate)

lemma encode_ok:
  assumes "key \<noteq> []" "length key \<le> length text"
  shows "vigenere_encode text key =
     Inr (map (\<lambda>x. rotate_letter (text ! x)
            ((concat (replicate (length text div length key) (map (\<lambda>x. py_ord x - 97) (lower key)))
              @ take (length text mod length key) (map (\<lambda>x. py_ord x - 97) (lower key))) ! x))
          [0..<length text])"
  using assms by (simp add: vigenere_encode_def Let_def lower_length lower_Nil_iff py_slice_take ord_a)

lemma lower_char_small: "97 \<le> py_ord c \<Longrightarrow> py_ord c \<le> 122 \<Longrightarrow> lower_char c = c"
  by (simp add: lower_char_def Let_def)

lemma mirror_value: "py_ord (py_chr (w mod 26 + 97)) - 97 = w mod 26"
proof -
  have "0 \<le> w mod 26 \<and> w mod 26 < 26" by simp
  then have "py_ord (py_chr (w mod 26 + 97)) = w mod 26 + 97"
    by (intro py_ord_chr) linarith+
  then show ?thesis by simp
qed

lemma mirror_lower: "lower_char (py_chr (w mod 26 + 97)) = py_chr (w mod 26 + 97)"
proof -
  have b: "0 \<le> w mod 26 \<and> w mod 26 < 26" by simp
  then have "py_ord (py_chr (w mod 26 + 97)) = w mod 26 + 97"
    by (intro py_ord_chr) linarith+
  with b show ?thesis by (intro lower_char_small) linarith+
qed

text \<open>
  C2, as the specification states it, covers the empty key, which is alphabetic and no
  longer than any text. There \<open>vigenere_encode\<close> raises ZeroDivisionError, so nothing
  is encoded and nothing can be decoded.
\<close>

theorem round_trip_empty_key_counterexample:
  "is_alphabetic '''' \<and> length '''' \<le> length ''attack''
   \<and> vigenere_encode ''attack'' '''' = Inl ZeroDivisionError
   \<and> \<not> (\<exists>crypt_text. vigenere_encode ''attack'' '''' = Inr crypt_text
           \<and> vigenere_decode crypt_text '''' = Inr ''attack'')"
  by (simp add: is_alphabetic_def vigenere_encode_def lower_def)

text \<open>
  C2 (amended): for every text and every alphabetic key that is not empty and not
  longer than the text, encoding succeeds and decoding the result with the same key
  returns the text.
\<close>

theorem vigenere_round_trip:
  assumes "key \<noteq> []" and "length key \<le> length text" and "is_alphabetic key"
  shows "\<exists>crypt_text. vigenere_encode text key = Inr crypt_text
           \<and> vigenere_decode crypt_text key = Inr text"
proof -
  let ?kl = "map (\<lambda>x. py_ord x - 97) (lower key)"
  let ?n = "length text"
  let ?ks = "concat (replicate (?n div length key) ?kl) @ take (?n mod length key) ?kl"
  let ?c = "map (\<lambda>x. rotate_letter (text ! x) (?ks ! x)) [0..<?n]"
  let ?dk = "map (\<lambda>each. py_chr ((26 - (py_ord each - 97)) mod 26 + 97)) (lower key)"
  have enc: "vigenere_encode text key = Inr ?c" using assms(1,2) by (rule encode_ok)
  have len_c: "length ?c = ?n" by simp
  have kl_ne: "?kl \<noteq> []" using assms(1) by (simp add: lower_def)
  have len_ks: "length ?ks = ?n"
    using key_stream_length[OF kl_ne, of ?n] by (simp add: lower_length)
  have dk_ne: "?dk \<noteq> []" using assms(1) by (simp add: lower_def)
  have len_dk: "length ?dk = length key" by (simp add: lower_length)
  have lower_dk: "lower ?dk = ?dk"
    by (simp add: lower_def mirror_lower)
  have vals_dk: "map (\<lambda>x. py_ord x - 97) ?dk = map (\<lambda>v. (26 - v) mod 26) ?kl"
    by (simp only: map_map comp_def mirror_value)
  have dec1: "vigenere_decode ?c key = vigenere_encode ?c ?dk"
    using assms(2) by (simp add: vigenere_decode_def Let_def ord_a)
  have "vigenere_encode ?c ?dk =
      Inr (map (\<lambda>x. rotate_letter (?c ! x)
            ((concat (replicate (length ?c div length ?dk) (map (\<lambda>x. py_ord x - 97) (lower ?dk)))
              @ take (length ?c mod length ?dk) (map (\<lambda>x. py_ord x - 97) (lower ?dk))) ! x))
          [0..<length ?c])"
    using dk_ne assms(2) by (intro encode_ok) (simp_all add: lower_length)
  also have "(concat (replicate (length ?c div length ?dk) (map (\<lambda>x. py_ord x - 97) (lower ?dk)))
              @ take (length ?c mod length ?dk) (map (\<lambda>x. py_ord x - 97) (lower ?dk)))
            = map (\<lambda>v. (26 - v) mod 26) ?ks"
    unfolding lower_dk vals_dk len_c len_dk by (rule key_stream_map)
  also have "map (\<lambda>x. rotate_letter (?c ! x) (map (\<lambda>v. (26 - v) mod 26) ?ks ! x)) [0..<length ?c]
      = map (\<lambda>x. text ! x) [0..<?n]"
    unfolding len_c
  proof (rule map_cong[OF refl])
    fix x assume "x \<in> set [0..<?n]"
    then have x: "x < ?n" by simp
    then have "?c ! x = rotate_letter (text ! x) (?ks ! x)" by simp
    moreover
    have "x < length ?ks" using x len_ks by (simp only:)
    then have "map (\<lambda>v. (26 - v) mod 26) ?ks ! x = (26 - ?ks ! x) mod 26"
      by (rule nth_map)
    ultimately show "rotate_letter (?c ! x) (map (\<lambda>v. (26 - v) mod 26) ?ks ! x) = text ! x"
      by (simp only: rotate_letter_inverse)
  qed
  also have "map (\<lambda>x. text ! x) [0..<?n] = text" by (rule map_nth)
  finally have "vigenere_encode ?c ?dk = Inr text" .
  with enc dec1 show ?thesis by simp
qed

theorem vigenere_round_trip_witness:
  "is_alphabetic ''Lemon''
   \<and> (\<exists>crypt_text. vigenere_encode ''attackatdawn'' ''Lemon'' = Inr crypt_text
         \<and> vigenere_decode crypt_text ''Lemon'' = Inr ''attackatdawn'')"
proof -
  have a: "is_alphabetic ''Lemon''" by (simp add: is_alphabetic_def py_ord_def)
  have "''Lemon'' \<noteq> []" and "length ''Lemon'' \<le> length ''attackatdawn''" by simp_all
  from vigenere_round_trip[OF this a] a show ?thesis by simp
qed

text \<open>
  C8, as the specification states it, promises a result for every alphabetic key that
  is not longer than the text. The empty key is such a key, and both functions raise
  ZeroDivisionError on it.
\<close>

theorem vigenere_empty_key_counterexample:
  "is_alphabetic '''' \<and> length '''' \<le> length ''abc''
   \<and> vigenere_encode ''abc'' '''' = Inl ZeroDivisionError
   \<and> vigenere_decode ''abc'' '''' = Inl ZeroDivisionError"
  by (simp add: is_alphabetic_def vigenere_encode_def vigenere_decode_def lower_def)

text \<open>
  C8 (amended): \<open>vigenere_encode\<close> fails its assertion exactly when the key is longer
  than the text, and so does \<open>vigenere_decode\<close> for every alphabetic key; when the key
  is alphabetic, not empty and not longer than the text, both return a result.
\<close>

theorem vigenere_failures:
  "(vigenere_encode plain_text key = Inl AssertionError \<longleftrightarrow> length plain_text < length key)
   \<and> (is_alphabetic key \<longrightarrow>
        (vigenere_decode plain_text key = Inl AssertionError \<longleftrightarrow> length plain_text < length key))
   \<and> (key \<noteq> [] \<and> is_alphabetic key \<and> length key \<le> length plain_text \<longrightarrow>
        (\<exists>r. vigenere_encode plain_text key = Inr r) \<and> (\<exists>r. vigenere_decode plain_text key = Inr r))"
proof -
  let ?dk = "map (\<lambda>each. py_chr ((26 - (py_ord each - py_ord CHR ''a'')) mod 26 + py_ord CHR ''a''))
               (lower key)"
  have enc: "vigenere_encode t k = Inl AssertionError \<longleftrightarrow> length t < length k" for t k
    by (auto simp: vigenere_encode_def Let_def)
  have len: "length ?dk = length key" by (simp add: lower_length)
  have dec: "vigenere_decode plain_text key =
      (if \<not> length key \<le> length plain_text then Inl AssertionError else vigenere_encode plain_text ?dk)"
    by (simp add: vigenere_decode_def Let_def)
  have a: "vigenere_decode plain_text key = Inl AssertionError \<longleftrightarrow> length plain_text < length key"
    using enc[of plain_text ?dk] len unfolding dec by auto
  have b: "(\<exists>r. vigenere_encode plain_text key = Inr r) \<and> (\<exists>r. vigenere_decode plain_text key = Inr r)"
    if k: "key \<noteq> []" "length key \<le> length plain_text"
  proof
    show "\<exists>r. vigenere_encode plain_text key = Inr r" using encode_ok[OF k] by blast
    have "?dk \<noteq> []" using k(1) by (simp add: lower_def)
    moreover have "length ?dk \<le> length plain_text" using k(2) len by simp
    ultimately have "\<exists>r. vigenere_encode plain_text ?dk = Inr r" using encode_ok by blast
    then show "\<exists>r. vigenere_decode plain_text key = Inr r" unfolding dec using k(2) by simp
  qed
  from enc[of plain_text key] a b show ?thesis by blast
qed

theorem vigenere_failures_witness:
  "is_alphabetic ''key''
   \<and> vigenere_encode ''ab'' ''key'' = Inl AssertionError
   \<and> vigenere_decode ''ab'' ''key'' = Inl AssertionError
   \<and> (\<exists>r. vigenere_encode ''hello'' ''key'' = Inr r)
   \<and> (\<exists>r. vigenere_decode ''hello'' ''key'' = Inr r)"
proof -
  have a: "is_alphabetic ''key''" by (simp add: is_alphabetic_def py_ord_def)
  from vigenere_failures[of "''ab''" "''key''"] vigenere_failures[of "''hello''" "''key''"] a
  show ?thesis by simp
qed

section \<open>The Kasiski examination on concrete ciphertexts\<close>

text \<open>
  C3: the Kasiski test with minimum pattern length 3 and maximum pattern length 6 on
  the encoding of "cryptoisshortforcryptography" under the key "abcd" returns a list of
  candidate key lengths that contains 4.
\<close>

theorem kasiski_test_scenario:
  "\<exists>crypt_text lengths.
     vigenere_encode ''cryptoisshortforcryptography'' ''abcd'' = Inr crypt_text
     \<and> vigenere_kasiski_test crypt_text 3 6 = Some (Inr lengths)
     \<and> 4 \<in> set lengths"
proof -
  have enc: "vigenere_encode ''cryptoisshortforcryptography'' ''abcd''
      = Inr ''csastpkvsiqutgqucsastpiuaqjb''"
    by code_simp
  have test: "vigenere_kasiski_test ''csastpkvsiqutgqucsastpiuaqjb'' 3 6
      = Some (Inr [16, 8, 4, 2, 1])"
    by code_simp
  have "(4::int) \<in> set [16, 8, 4, 2, 1]" by simp
  with enc test show ?thesis by blast
qed

text \<open>
  C1 at the ciphertext "abcabc": \<open>initialize_patterns\<close> finds the pattern "abc" at the
  positions 0 and 3. The second position is three characters before the end, so the
  slice for the four-character candidate is cut to "abc" itself, which matches at both
  positions, and the recursive call receives the table it was given.
\<close>

lemma scan_abcabc:
  "maximize_scan ''abcabc'' 6 [(''abc'', [0, 3])] (False, []) = (True, [(''abc'', [0, 3])])"
  by code_simp

lemma no_result_abcabc:
  assumes "maximize_patterns t p m = Some y"
  shows "\<not> (t = ''abcabc'' \<and> p = [(''abc'', [0, 3])] \<and> m = 6)"
proof (rule maximize_patterns.raw_induct
    [where P = "\<lambda>t p m y. \<not> (t = ''abcabc'' \<and> p = [(''abc'', [0, 3])] \<and> m = 6)", OF _ assms])
  fix f :: "string \<Rightarrow> pattern_table \<Rightarrow> int \<Rightarrow> pattern_table option"
  fix crypt_text patterns maximum_pattern_length y
  assume IH: "\<And>a b c y. f a b c = Some y \<Longrightarrow> \<not> (a = ''abcabc'' \<and> b = [(''abc'', [0, 3])] \<and> c = 6)"
  assume body: "(let st = maximize_scan crypt_text maximum_pattern_length patterns (False, [])
      in if fst st then
           Option.bind (f crypt_text (snd st) maximum_pattern_length)
             (\<lambda>recursive_patterns. Some (merge_patterns patterns recursive_patterns))
         else Some patterns) = Some y"
  show "\<not> (crypt_text = ''abcabc'' \<and> patterns = [(''abc'', [0, 3])] \<and> maximum_pattern_length = 6)"
  proof
    assume a: "crypt_text = ''abcabc'' \<and> patterns = [(''abc'', [0, 3])] \<and> maximum_pattern_length = 6"
    from body have "f ''abcabc'' [(''abc'', [0, 3])] 6 \<noteq> None"
      unfolding a[THEN conjunct1] a[THEN conjunct2, THEN conjunct1] a[THEN conjunct2, THEN conjunct2]
        scan_abcabc
      by (auto simp del: maximize_scan.simps split: bind_splits)
    then obtain z where "f ''abcabc'' [(''abc'', [0, 3])] 6 = Some z" by auto
    from IH[OF this] show False by simp
  qed
qed

text \<open>
  C1 (the code at the failing input): on the ciphertext "abcabc", the table that
  \<open>initialize_patterns\<close> builds for minimum length 3 is "abc" at 0 and 3, a table
  of valid occurrence-index lists, and \<open>maximize_patterns\<close> with maximum length 6
  does not return on it; neither does the Kasiski test.
\<close>

theorem maximize_patterns_diverges:
  "initialize_patterns ''abcabc'' 3 = [(''abc'', [0, 3])]
   \<and> valid_table ''abcabc'' [(''abc'', [0, 3])]
   \<and> maximize_patterns ''abcabc'' [(''abc'', [0, 3])] 6 = None
   \<and> vigenere_kasiski_test ''abcabc'' 3 6 = None"
proof -
  have init: "initialize_patterns ''abcabc'' 3 = [(''abc'', [0, 3])]"
    by code_simp
  have valid: "valid_table ''abcabc'' [(''abc'', [0, 3])]"
    by code_simp
  have none: "maximize_patterns ''abcabc'' [(''abc'', [0, 3])] 6 = None"
  proof (cases "maximize_patterns ''abcabc'' [(''abc'', [0, 3])] 6")
    case None
    then show ?thesis .
  next
    case (Some y)
    then show ?thesis using no_result_abcabc[of "''abcabc''" "[(''abc'', [0, 3])]" 6 y]
      by simp
  qed
  have "vigenere_kasiski_test ''abcabc'' 3 6 = None"
    unfolding vigenere_kasiski_test_def init none by simp
  with init valid none show ?thesis by simp
qed

text \<open>
  Without a period the list of factor lists is empty, and reading its first element
  raises IndexError: the test makes no check of its own.
\<close>

lemma kasiski_no_periods_index_error:
  assumes "maximize_patterns crypt_text
             (initialize_patterns crypt_text minimum_pattern_length) maximum_pattern_length
           = Some maximized"
    and "remove_redundant_patterns maximized = Inr patterns"
    and "get_pattern_distances patterns = Inr []"
  shows "vigenere_kasiski_test crypt_text minimum_pattern_length maximum_pattern_length
         = Some (Inl IndexError)"
  using assms
  by (simp add: vigenere_kasiski_test_def intersect_factors_def py_list_of_set_def)

lemma kasiski_uneven_spacing:
  "vigenere_kasiski_test ''abcXabcYYabcZ'' 3 6 = Some (Inl IndexError)"
proof -
  have m: "maximize_patterns ''abcXabcYYabcZ'' (initialize_patterns ''abcXabcYYabcZ'' 3) 6
      = Some [(''abc'', [0, 4, 9])]"
    by code_simp
  have r: "remove_redundant_patterns [(''abc'', [0, 4, 9])] = Inr [(''abc'', [0, 4, 9])]"
    by code_simp
  have d: "get_pattern_distances [(''abc'', [0, 4, 9])] = Inr []"
    by code_simp
  from kasiski_no_periods_index_error[OF m r d] show ?thesis .
qed

text \<open>
  C4 (the code at the failing input): the ciphertext "abcdefg" has no repeated pattern,
  so the distance analysis yields no period. The Kasiski test then raises IndexError,
  the index fault itself, and not the error of a failed argument check.
\<close>

theorem kasiski_no_periods_index_fault:
  "get_pattern_distances (initialize_patterns ''abcdefg'' 3) = Inr []
   \<and> vigenere_kasiski_test ''abcdefg'' 3 6 = Some (Inl IndexError)
   \<and> vigenere_kasiski_test ''abcdefg'' 3 6 \<noteq> Some (Inl AssertionError)"
proof -
  have "get_pattern_distances (initialize_patterns ''abcdefg'' 3) = Inr []"
    by code_simp
  moreover have "vigenere_kasiski_test ''abcdefg'' 3 6 = Some (Inl IndexError)"
    by code_simp
  ultimately show ?thesis by simp
qed

section \<open>Removing redundant patterns\<close>

lemma str_index_nonneg: "str_index s sub = Inr i \<Longrightarrow> 0 \<le> i"
  by (induction s arbitrary: i) (auto split: if_splits sum.splits)

lemma str_contains_index: "str_contains s sub \<Longrightarrow> \<exists>i. str_index s sub = Inr i"
  by (induction s) (auto split: sum.splits)

lemma redundant_in_total: "\<exists>found. redundant_in suspect t = Inr found"
proof (induction t)
  case Nil
  then show ?case by auto
next
  case (Cons larger t)
  obtain larger_key larger_occ where l: "larger = (larger_key, larger_occ)" by (cases larger)
  show ?case
  proof (cases "str_contains larger_key (fst suspect)")
    case False
    with Cons l show ?thesis by simp
  next
    case True
    then obtain d where d: "str_index larger_key (fst suspect) = Inr d"
      using str_contains_index by blast
    then have "0 \<le> d" by (rule str_index_nonneg)
    with Cons l d show ?thesis by auto
  qed
qed

lemma redundant_keys_eq:
  "redundant_keys t ss = Inr (map fst (filter (\<lambda>s. redundant_in s t = Inr True) ss))"
proof (induction ss)
  case Nil
  then show ?case by simp
next
  case (Cons s ss)
  obtain found where "redundant_in s t = Inr found" using redundant_in_total by blast
  with Cons show ?case by (cases found) simp_all
qed

lemma delete_keys_filter:
  "distinct ks \<Longrightarrow> set ks \<subseteq> fst ` set t \<Longrightarrow>
   delete_keys t ks = Inr (filter (\<lambda>kv. fst kv \<notin> set ks) t)"
proof (induction ks arbitrary: t)
  case Nil
  then show ?case by simp
next
  case (Cons k ks)
  let ?t1 = "filter (\<lambda>kv. fst kv \<noteq> k) t"
  from Cons.prems have del: "dict_del t k = Inr ?t1" by (simp add: dict_del_def)
  have "set ks \<subseteq> fst ` set ?t1"
  proof
    fix x assume x: "x \<in> set ks"
    with Cons.prems have "x \<noteq> k" by auto
    moreover from x Cons.prems obtain kv where "kv \<in> set t" "fst kv = x" by auto
    ultimately have "kv \<in> set ?t1" by simp
    with \<open>fst kv = x\<close> show "x \<in> fst ` set ?t1" by blast
  qed
  with Cons.IH[of ?t1] Cons.prems
  have "delete_keys ?t1 ks = Inr (filter (\<lambda>kv. fst kv \<notin> set ks) ?t1)" by simp
  moreover have "filter (\<lambda>kv. fst kv \<notin> set ks) ?t1 = filter (\<lambda>kv. fst kv \<notin> set (k # ks)) t"
    by (auto intro: filter_cong)
  ultimately show ?case using del by simp
qed

lemma is_dict_filter: "is_dict t \<Longrightarrow> is_dict (filter P t)"
  by (simp add: is_dict_def distinct_map_filter)

lemma redundant_keys_dict:
  assumes "is_dict t" and "redundant_keys t t = Inr ks"
  shows "distinct ks \<and> set ks \<subseteq> fst ` set t"
proof -
  from assms(2) have ks: "ks = map fst (filter (\<lambda>s. redundant_in s t = Inr True) t)"
    by (simp add: redundant_keys_eq)
  from assms(1) have "distinct ks" unfolding ks is_dict_def by (rule distinct_map_filter)
  moreover have "set ks \<subseteq> fst ` set t" unfolding ks by auto
  ultimately show ?thesis by simp
qed

lemma remove_redundant_patterns_dict:
  "is_dict t \<Longrightarrow>
   \<exists>r. remove_redundant_patterns t = Inr r \<and> is_dict r \<and> redundant_keys r r = Inr []"
proof (induction t rule: remove_redundant_patterns.induct)
  case (1 patterns)
  obtain ks where ks: "redundant_keys patterns patterns = Inr ks"
    by (simp add: redundant_keys_eq)
  show ?case
  proof (cases "ks = []")
    case True
    with ks "1.prems" show ?thesis by (simp add: remove_redundant_patterns.simps[of patterns])
  next
    case False
    let ?d = "filter (\<lambda>kv. fst kv \<notin> set ks) patterns"
    from redundant_keys_dict[OF "1.prems" ks]
    have del: "delete_keys patterns ks = Inr ?d" by (simp add: delete_keys_filter)
    have "is_dict ?d" using "1.prems" by (rule is_dict_filter)
    from "1.IH"[OF ks False del this] obtain r where
      "remove_redundant_patterns ?d = Inr r \<and> is_dict r \<and> redundant_keys r r = Inr []" by blast
    with ks False del show ?thesis by (simp add: remove_redundant_patterns.simps[of patterns])
  qed
qed

lemma never_assertion:
  "remove_redundant_patterns t \<noteq> Inl AssertionError"
proof (induction t rule: remove_redundant_patterns.induct)
  case (1 patterns)
  obtain ks where ks: "redundant_keys patterns patterns = Inr ks"
    by (simp add: redundant_keys_eq)
  show ?case
  proof (cases "ks = []")
    case True
    with ks show ?thesis by (simp add: remove_redundant_patterns.simps[of patterns])
  next
    case False
    show ?thesis
    proof (cases "delete_keys patterns ks")
      case (Inl e)
      have "delete_keys d xs = Inl e \<Longrightarrow> e = KeyError" for d :: pattern_table and xs e
        by (induction xs arbitrary: d) (auto simp: dict_del_def split: sum.splits if_splits)
      with Inl have "e = KeyError" by blast
      with ks False Inl show ?thesis by (simp add: remove_redundant_patterns.simps[of patterns])
    next
      case (Inr d)
      from "1.IH"[OF ks False Inr] ks False Inr show ?thesis
        by (simp add: remove_redundant_patterns.simps[of patterns])
    qed
  qed
qed

lemma delete_keys_store_frame:
  "delete_keys_store g a ks = (res, g1) \<Longrightarrow> n \<le> a \<Longrightarrow> take n g1 = take n g \<and> length g1 = length g"
proof (induction ks arbitrary: g)
  case Nil
  then show ?case by simp
next
  case (Cons k ks)
  show ?case
  proof (cases "dict_del (g ! a) k")
    case (Inl e)
    with Cons.prems show ?thesis by simp
  next
    case (Inr d)
    with Cons.prems have "delete_keys_store (g[a := d]) a ks = (res, g1)" by simp
    from Cons.IH[OF this Cons.prems(2)] Cons.prems(2) show ?thesis by simp
  qed
qed

lemma delete_keys_store_pure:
  "delete_keys_store g a ks = (res, g1) \<Longrightarrow> a < length g \<Longrightarrow>
   (case delete_keys (g ! a) ks of Inl e \<Rightarrow> res = Inl e | Inr d \<Rightarrow> res = Inr () \<and> g1 ! a = d)"
proof (induction ks arbitrary: g)
  case Nil
  then show ?case by simp
next
  case (Cons k ks)
  show ?case
  proof (cases "dict_del (g ! a) k")
    case (Inl e)
    with Cons.prems show ?thesis by simp
  next
    case (Inr d)
    with Cons.prems have "delete_keys_store (g[a := d]) a ks = (res, g1)" by simp
    from Cons.IH[OF this] Cons.prems(2) Inr show ?thesis by simp
  qed
qed

lemma store_frame: "take (length h) (snd (remove_redundant_patterns_store h patterns)) = h"
proof (induction h patterns rule: remove_redundant_patterns_store.induct)
  case (1 h patterns)
  let ?a = "length h"
  let ?h1 = "h @ [h ! patterns]"
  obtain ks where ks: "redundant_keys (?h1 ! ?a) (?h1 ! ?a) = Inr ks"
    by (simp add: redundant_keys_eq)
  show ?case
  proof (cases "ks = []")
    case True
    with ks show ?thesis
      by (simp add: remove_redundant_patterns_store.simps[of h patterns] Let_def)
  next
    case False
    obtain res h2 where del: "delete_keys_store ?h1 ?a ks = (res, h2)"
      by (cases "delete_keys_store ?h1 ?a ks")
    from delete_keys_store_frame[OF del, of ?a]
    have fr: "take ?a h2 = h" and len: "length h2 = Suc ?a" by simp_all
    show ?thesis
    proof (cases res)
      case (Inl e)
      with ks False del fr show ?thesis
        by (simp add: remove_redundant_patterns_store.simps[of h patterns] Let_def)
    next
      case (Inr u)
      from "1.IH"[OF refl refl ks False del[symmetric] Inr]
      have "take (length h2) (snd (remove_redundant_patterns_store h2 ?a)) = h2" .
      then have "take ?a (take (length h2) (snd (remove_redundant_patterns_store h2 ?a))) = take ?a h2"
        by simp
      then have "take ?a (snd (remove_redundant_patterns_store h2 ?a)) = h"
        using len fr by (simp add: min_def)
      with ks False del Inr show ?thesis
        by (simp add: remove_redundant_patterns_store.simps[of h patterns] Let_def)
    qed
  qed
qed

text \<open>
  The store model computes what \<open>remove_redundant_patterns\<close> computes: the same
  error, or a reference to the same table.
\<close>

lemma store_agrees:
  "patterns < length h \<Longrightarrow>
   (case remove_redundant_patterns_store h patterns of
      (Inl e, h1) \<Rightarrow> remove_redundant_patterns (h ! patterns) = Inl e
    | (Inr r, h1) \<Rightarrow> r < length h1 \<and> remove_redundant_patterns (h ! patterns) = Inr (h1 ! r))"
proof (induction h patterns rule: remove_redundant_patterns_store.induct)
  case (1 h patterns)
  let ?a = "length h"
  let ?h1 = "h @ [h ! patterns]"
  have same: "?h1 ! ?a = h ! patterns" by simp
  obtain ks where ks: "redundant_keys (h ! patterns) (h ! patterns) = Inr ks"
    by (simp add: redundant_keys_eq)
  show ?case
  proof (cases "ks = []")
    case True
    with ks show ?thesis
      by (simp add: remove_redundant_patterns_store.simps[of h patterns]
          remove_redundant_patterns.simps[of "h ! patterns"] Let_def)
  next
    case False
    obtain res h2 where del: "delete_keys_store ?h1 ?a ks = (res, h2)"
      by (cases "delete_keys_store ?h1 ?a ks")
    from delete_keys_store_frame[OF del, of ?a]
    have len: "length h2 = Suc ?a" by simp
    from delete_keys_store_pure[OF del] have pure:
      "(case delete_keys (h ! patterns) ks of Inl e \<Rightarrow> res = Inl e
        | Inr d \<Rightarrow> res = Inr () \<and> h2 ! ?a = d)" by simp
    show ?thesis
    proof (cases res)
      case (Inl e)
      with pure have "delete_keys (h ! patterns) ks = Inl e" by (auto split: sum.splits)
      with ks False del Inl show ?thesis
        by (simp add: remove_redundant_patterns_store.simps[of h patterns]
            remove_redundant_patterns.simps[of "h ! patterns"] Let_def)
    next
      case (Inr u)
      with pure have d: "delete_keys (h ! patterns) ks = Inr (h2 ! ?a)" by (auto split: sum.splits)
      have "?a < length h2" using len by simp
      from "1.IH"[OF refl refl _ False del[symmetric] Inr this] ks
      have ih: "(case remove_redundant_patterns_store h2 ?a of
              (Inl e, h1) \<Rightarrow> remove_redundant_patterns (h2 ! ?a) = Inl e
            | (Inr r, h1) \<Rightarrow> r < length h1 \<and> remove_redundant_patterns (h2 ! ?a) = Inr (h1 ! r))"
        by simp
      have eqs: "remove_redundant_patterns_store h patterns
          = remove_redundant_patterns_store h2 ?a"
        using ks False del Inr
        by (simp add: remove_redundant_patterns_store.simps[of h patterns] Let_def)
      have eqp: "remove_redundant_patterns (h ! patterns) = remove_redundant_patterns (h2 ! ?a)"
        using ks False d by (simp add: remove_redundant_patterns.simps[of "h ! patterns"])
      show ?thesis unfolding eqs eqp by (rule ih)
    qed
  qed
qed

text \<open>
  C10: in \<open>remove_redundant_patterns\<close> the branch for a negative \<^verbatim>\<open>difference\<close> is
  never taken. Whenever the containment check passes, \<^verbatim>\<open>larger_key.index(suspect_key)\<close>
  returns a position that is not negative, and the function raises AssertionError on no
  table.
\<close>

theorem assertion_unreachable:
  "(str_contains larger_key suspect_key \<longrightarrow>
      (\<exists>difference. str_index larger_key suspect_key = Inr difference \<and> 0 \<le> difference))
   \<and> remove_redundant_patterns patterns \<noteq> Inl AssertionError"
proof
  show "str_contains larger_key suspect_key \<longrightarrow>
      (\<exists>difference. str_index larger_key suspect_key = Inr difference \<and> 0 \<le> difference)"
    using str_contains_index str_index_nonneg by blast
  show "remove_redundant_patterns patterns \<noteq> Inl AssertionError"
    by (rule never_assertion)
qed

theorem assertion_unreachable_witness:
  "str_contains ''csastp'' ''ast''
   \<and> (\<exists>difference. str_index ''csastp'' ''ast'' = Inr difference \<and> 0 \<le> difference)
   \<and> remove_redundant_patterns [(''ast'', [2, 18]), (''csastp'', [0, 16])] \<noteq> Inl AssertionError"
proof -
  have "str_contains ''csastp'' ''ast''" by simp
  with assertion_unreachable[of "''csastp''" "''ast''" "[(''ast'', [2, 18]), (''csastp'', [0, 16])]"]
  show ?thesis by blast
qed

text \<open>
  C6: \<open>remove_redundant_patterns\<close> is idempotent. On every dict it returns a table,
  and applied to that table it returns the same table again.
\<close>

theorem remove_redundant_patterns_idempotent:
  "is_dict patterns \<Longrightarrow>
   \<exists>r. remove_redundant_patterns patterns = Inr r \<and> remove_redundant_patterns r = Inr r"
proof -
  assume "is_dict patterns"
  then obtain r where r: "remove_redundant_patterns patterns = Inr r"
    and stable: "redundant_keys r r = Inr []"
    using remove_redundant_patterns_dict by blast
  from stable have "remove_redundant_patterns r = Inr r"
    by (simp add: remove_redundant_patterns.simps[of r])
  with r show ?thesis by blast
qed

theorem remove_redundant_patterns_idempotent_witness:
  "remove_redundant_patterns [(''csa'', [0, 16]), (''tpk'', [4, 9, 20]), (''csas'', [0, 16])]
     = Inr [(''tpk'', [4, 9, 20]), (''csas'', [0, 16])]
   \<and> remove_redundant_patterns [(''tpk'', [4, 9, 20]), (''csas'', [0, 16])]
     = Inr [(''tpk'', [4, 9, 20]), (''csas'', [0, 16])]"
proof -
  let ?t = "[(''csa'', [0, 16]), (''tpk'', [4, 9, 20]), (''csas'', [0::int, 16])]"
  have d: "is_dict ?t" by (simp add: is_dict_def)
  have e: "remove_redundant_patterns ?t = Inr [(''tpk'', [4, 9, 20]), (''csas'', [0, 16])]"
    by code_simp
  from remove_redundant_patterns_idempotent[OF d] e show ?thesis by simp
qed

text \<open>
  C9: \<open>remove_redundant_patterns\<close> does not change its argument. Whatever the call
  returns or raises, every table that was in the store before the call is the same
  after it; in particular the argument still maps the same patterns to the same lists.
\<close>

theorem remove_redundant_patterns_keeps_argument:
  "patterns < length h \<Longrightarrow>
   take (length h) (snd (remove_redundant_patterns_store h patterns)) = h
   \<and> snd (remove_redundant_patterns_store h patterns) ! patterns = h ! patterns"
proof -
  assume p: "patterns < length h"
  let ?s = "snd (remove_redundant_patterns_store h patterns)"
  have fr: "take (length h) ?s = h" by (rule store_frame)
  from p have "take (length h) ?s ! patterns = ?s ! patterns" by (rule nth_take)
  with fr show ?thesis by simp
qed

theorem remove_redundant_patterns_keeps_argument_witness:
  "fst (remove_redundant_patterns_store [[(''ast'', [2, 18]), (''csastp'', [0, 16])]] 0) = Inr 2
   \<and> snd (remove_redundant_patterns_store [[(''ast'', [2, 18]), (''csastp'', [0, 16])]] 0) ! 2
       = [(''csastp'', [0, 16])]
   \<and> snd (remove_redundant_patterns_store [[(''ast'', [2, 18]), (''csastp'', [0, 16])]] 0) ! 0
       = [(''ast'', [2, 18]), (''csastp'', [0, 16])]"
proof -
  let ?h = "[[(''ast'', [2, 18]), (''csastp'', [0::int, 16])]]"
  have r: "remove_redundant_patterns_store ?h 0
      = (Inr 2, [[(''ast'', [2, 18]), (''csastp'', [0, 16])], [(''csastp'', [0, 16])],
                 [(''csastp'', [0, 16])]])"
    by code_simp
  have "(0::nat) < length ?h" by simp
  from remove_redundant_patterns_keeps_argument[OF this] r show ?thesis by simp
qed

section \<open>Pattern tables: initialization and maximization\<close>

subsection \<open>Slices and matches\<close>

lemma py_slice_nonneg:
  "0 \<le> i \<Longrightarrow> 0 \<le> j \<Longrightarrow> py_slice s i j = take (nat j - nat i) (drop (nat i) s)"
  by (auto simp: py_slice_def py_slice_bound_def Let_def min_def)

lemma occurs_at_iff:
  "occurs_at crypt_text p i \<longleftrightarrow>
     0 \<le> i \<and> nat i + length p \<le> length crypt_text \<and> take (length p) (drop (nat i) crypt_text) = p"
proof (cases "0 \<le> i")
  case True
  then have "nat (i + int (length p)) - nat i = length p" by simp
  with True show ?thesis
    by (auto simp: occurs_at_def py_slice_nonneg)
next
  case False
  then show ?thesis by (simp add: occurs_at_def)
qed

lemma find_matches_filter:
  "find_matches crypt_text q occ =
     filter (\<lambda>each. \<not> each + int (length q) > int (length crypt_text)
                \<and> py_slice crypt_text each (each + int (length q)) = q) occ"
  by (induction occ) auto

lemma find_matches_subset: "set (find_matches crypt_text q occ) \<subseteq> set occ"
  by (simp add: find_matches_filter)

lemma find_matches_occurs:
  "i \<in> set (find_matches crypt_text q occ) \<Longrightarrow> 0 \<le> i \<Longrightarrow> occurs_at crypt_text q i"
  by (simp add: find_matches_filter occurs_at_def)

lemma find_matches_all:
  "list_all (occurs_at crypt_text q) occ \<Longrightarrow> find_matches crypt_text q occ = occ"
  by (induction occ) (auto simp: occurs_at_def)

lemma find_matches_sorted:
  "sorted_wrt (<) occ \<Longrightarrow> sorted_wrt (<) (find_matches crypt_text q occ)"
  by (simp add: find_matches_filter sorted_wrt_filter)

text \<open>The candidate taken at a position where the base pattern occurs.\<close>

lemma tentative_pattern:
  assumes "occurs_at crypt_text b i"
  shows "py_slice crypt_text i (i + (int (length b) + 1)) =
     (if nat i + length b < length crypt_text then b @ [crypt_text ! (nat i + length b)] else b)"
proof -
  from assms have i: "0 \<le> i" and fit: "nat i + length b \<le> length crypt_text"
    and b: "take (length b) (drop (nat i) crypt_text) = b"
    by (simp_all add: occurs_at_iff)
  have n: "nat (i + (int (length b) + 1)) - nat i = Suc (length b)" using i by simp
  have sl: "py_slice crypt_text i (i + (int (length b) + 1))
      = take (Suc (length b)) (drop (nat i) crypt_text)"
    using i n by (simp add: py_slice_nonneg)
  show ?thesis
  proof (cases "nat i + length b < length crypt_text")
    case True
    then have "length b < length (drop (nat i) crypt_text)" by simp
    then have "take (Suc (length b)) (drop (nat i) crypt_text)
        = take (length b) (drop (nat i) crypt_text) @ [drop (nat i) crypt_text ! length b]"
      by (rule take_Suc_conv_app_nth)
    with True b sl show ?thesis by simp
  next
    case False
    with fit have "length (drop (nat i) crypt_text) = length b" by simp
    then have "take (Suc (length b)) (drop (nat i) crypt_text) = drop (nat i) crypt_text"
      and "take (length b) (drop (nat i) crypt_text) = drop (nat i) crypt_text"
      by simp_all
    with False b sl show ?thesis by simp
  qed
qed

subsection \<open>Dicts\<close>

lemma dict_set_entries: "set (dict_set d k v) \<subseteq> insert (k, v) (set d)"
  by (induction d k v rule: dict_set.induct) auto

lemma dict_set_keys: "fst ` set (dict_set d k v) = insert k (fst ` set d)"
  by (induction d k v rule: dict_set.induct) auto

lemma dict_set_is_dict: "is_dict d \<Longrightarrow> is_dict (dict_set d k v)"
proof (induction d)
  case Nil
  then show ?case by (simp add: is_dict_def)
next
  case (Cons a d)
  obtain k1 v1 where a: "a = (k1, v1)" by (cases a)
  from Cons.prems have k1: "k1 \<notin> fst ` set d" and d: "is_dict d"
    by (simp_all add: is_dict_def a)
  from Cons.IH[OF d] have "is_dict (dict_set d k v)" .
  moreover have "k1 \<noteq> k \<Longrightarrow> k1 \<notin> fst ` set (dict_set d k v)"
    using k1 by (simp add: dict_set_keys)
  ultimately show ?case using k1 d by (auto simp: is_dict_def a)
qed

lemma map_of_dict_set: "map_of (dict_set d k v) = (map_of d)(k \<mapsto> v)"
  by (induction d k v rule: dict_set.induct) (auto simp: fun_eq_iff)

lemma merge_entries: "set (merge_patterns t r) \<subseteq> set t \<union> set r"
proof -
  have "set (fold (\<lambda>kv d. dict_set d (fst kv) (snd kv)) r t) \<subseteq> set t \<union> set r" for t
  proof (induction r arbitrary: t)
    case Nil
    then show ?case by simp
  next
    case (Cons a r)
    have "set (dict_set t (fst a) (snd a)) \<subseteq> insert a (set t)"
      using dict_set_entries[of t "fst a" "snd a"] by simp
    with Cons[of "dict_set t (fst a) (snd a)"] show ?case by auto
  qed
  then show ?thesis by (simp add: merge_patterns_def)
qed

lemma merge_is_dict: "is_dict t \<Longrightarrow> is_dict (merge_patterns t r)"
proof -
  have "is_dict t \<Longrightarrow> is_dict (fold (\<lambda>kv d. dict_set d (fst kv) (snd kv)) r t)" for t
    by (induction r arbitrary: t) (simp_all add: dict_set_is_dict)
  then show "is_dict t \<Longrightarrow> is_dict (merge_patterns t r)" by (simp add: merge_patterns_def)
qed

lemma map_of_merge:
  "is_dict r \<Longrightarrow>
   map_of (merge_patterns t r) x = (case map_of r x of None \<Rightarrow> map_of t x | Some v \<Rightarrow> Some v)"
proof -
  have "distinct (map fst r) \<Longrightarrow>
      map_of (fold (\<lambda>kv d. dict_set d (fst kv) (snd kv)) r t) x
        = (case map_of r x of None \<Rightarrow> map_of t x | Some v \<Rightarrow> Some v)" for t
  proof (induction r arbitrary: t)
    case Nil
    then show ?case by simp
  next
    case (Cons a r)
    obtain k v where a: "a = (k, v)" by (cases a)
    from Cons.prems have k: "k \<notin> fst ` set r" and r: "distinct (map fst r)" by (simp_all add: a)
    from k have none: "map_of r k = None" by (simp add: map_of_eq_None_iff)
    from Cons.IH[OF r, of "dict_set t k v"] none show ?case
      by (auto simp: a map_of_dict_set split: option.splits)
  qed
  then show "is_dict r \<Longrightarrow>
      map_of (merge_patterns t r) x = (case map_of r x of None \<Rightarrow> map_of t x | Some v \<Rightarrow> Some v)"
    by (simp add: merge_patterns_def is_dict_def)
qed

subsection \<open>What the loops of maximize\_patterns store\<close>

lemma occurrences_entries:
  "e \<in> set (snd (maximize_occurrences crypt_text occ tlen idxs st)) \<Longrightarrow>
   e \<in> set (snd st) \<or>
   (\<exists>i\<in>set idxs. fst e = py_slice crypt_text i (i + tlen)
       \<and> snd e = find_matches crypt_text (fst e) occ \<and> 1 < length (snd e))"
proof (induction idxs arbitrary: st)
  case Nil
  then show ?case by simp
next
  case (Cons i idxs)
  let ?q = "py_slice crypt_text i (i + tlen)"
  let ?ms = "find_matches crypt_text ?q occ"
  let ?st = "if length ?ms > 1 then (True, dict_set (snd st) ?q ?ms) else st"
  from Cons.prems have "e \<in> set (snd (maximize_occurrences crypt_text occ tlen idxs ?st))"
    by (simp add: Let_def)
  from Cons.IH[OF this] show ?case
  proof
    assume "e \<in> set (snd ?st)"
    then have "e \<in> set (snd st) \<or> (e = (?q, ?ms) \<and> 1 < length ?ms)"
      using dict_set_entries[of "snd st" ?q ?ms] by (auto split: if_splits)
    then show ?thesis by auto
  next
    assume "\<exists>i\<in>set idxs. fst e = py_slice crypt_text i (i + tlen)
       \<and> snd e = find_matches crypt_text (fst e) occ \<and> 1 < length (snd e)"
    then show ?thesis by auto
  qed
qed

lemma scan_entries:
  "e \<in> set (snd (maximize_scan crypt_text mx t st)) \<Longrightarrow>
   e \<in> set (snd st) \<or> (\<exists>base\<in>set t. extension crypt_text mx base e)"
proof (induction t arbitrary: st)
  case Nil
  then show ?case by simp
next
  case (Cons a t)
  obtain b occ where a: "a = (b, occ)" by (cases a)
  show ?case
  proof (cases "int (length b) + 1 > mx")
    case True
    with Cons.prems a have "e \<in> set (snd (maximize_scan crypt_text mx t st))" by simp
    from Cons.IH[OF this] show ?thesis by auto
  next
    case False
    let ?st = "maximize_occurrences crypt_text occ (int (length b) + 1) occ st"
    from False Cons.prems a have "e \<in> set (snd (maximize_scan crypt_text mx t ?st))"
      by (simp add: Let_def)
    from Cons.IH[OF this] show ?thesis
    proof
      assume "e \<in> set (snd ?st)"
      from occurrences_entries[OF this] False
      have "e \<in> set (snd st) \<or> extension crypt_text mx (b, occ) e"
        by (auto simp: extension_def list_ex_iff)
      then show ?thesis using a by auto
    next
      assume "\<exists>base\<in>set t. extension crypt_text mx base e"
      then show ?thesis by auto
    qed
  qed
qed

lemma occurrences_grows:
  "(fst st \<longrightarrow> fst (maximize_occurrences crypt_text occ tlen idxs st))
   \<and> fst ` set (snd st) \<subseteq> fst ` set (snd (maximize_occurrences crypt_text occ tlen idxs st))"
proof (induction idxs arbitrary: st)
  case Nil
  then show ?case by simp
next
  case (Cons i idxs)
  let ?q = "py_slice crypt_text i (i + tlen)"
  let ?ms = "find_matches crypt_text ?q occ"
  let ?st = "if length ?ms > 1 then (True, dict_set (snd st) ?q ?ms) else st"
  have step: "maximize_occurrences crypt_text occ tlen (i # idxs) st
      = maximize_occurrences crypt_text occ tlen idxs ?st"
    by (simp add: Let_def)
  have "(fst st \<longrightarrow> fst ?st) \<and> fst ` set (snd st) \<subseteq> fst ` set (snd ?st)"
    by (auto simp: dict_set_keys)
  with Cons.IH[of ?st] show ?case unfolding step by blast
qed

lemma scan_grows:
  "(fst st \<longrightarrow> fst (maximize_scan crypt_text mx t st))
   \<and> fst ` set (snd st) \<subseteq> fst ` set (snd (maximize_scan crypt_text mx t st))"
proof (induction t arbitrary: st)
  case Nil
  then show ?case by simp
next
  case (Cons a t)
  obtain b occ where a: "a = (b, occ)" by (cases a)
  show ?case
  proof (cases "int (length b) + 1 > mx")
    case True
    with Cons.IH[of st] a show ?thesis by simp
  next
    case False
    let ?st = "maximize_occurrences crypt_text occ (int (length b) + 1) occ st"
    have step: "maximize_scan crypt_text mx (a # t) st = maximize_scan crypt_text mx t ?st"
      using False a by (simp add: Let_def)
    from occurrences_grows[of st crypt_text occ "int (length b) + 1" occ] Cons.IH[of ?st]
    show ?thesis unfolding step by blast
  qed
qed

lemma occurrences_stores:
  "i \<in> set idxs \<Longrightarrow> 1 < length (find_matches crypt_text (py_slice crypt_text i (i + tlen)) occ) \<Longrightarrow>
   fst (maximize_occurrences crypt_text occ tlen idxs st)
   \<and> py_slice crypt_text i (i + tlen) \<in> fst ` set (snd (maximize_occurrences crypt_text occ tlen idxs st))"
proof (induction idxs arbitrary: st)
  case Nil
  then show ?case by simp
next
  case (Cons j idxs)
  let ?q = "py_slice crypt_text j (j + tlen)"
  let ?ms = "find_matches crypt_text ?q occ"
  let ?st = "if length ?ms > 1 then (True, dict_set (snd st) ?q ?ms) else st"
  have step: "maximize_occurrences crypt_text occ tlen (j # idxs) st
      = maximize_occurrences crypt_text occ tlen idxs ?st"
    by (simp add: Let_def)
  show ?case
  proof (cases "i = j")
    case True
    with Cons.prems have "fst ?st \<and> py_slice crypt_text i (i + tlen) \<in> fst ` set (snd ?st)"
      by (simp add: dict_set_keys)
    with occurrences_grows[of ?st crypt_text occ tlen idxs] show ?thesis unfolding step by blast
  next
    case False
    with Cons.prems have "i \<in> set idxs" by simp
    from Cons.IH[OF this Cons.prems(2), of ?st] show ?thesis unfolding step .
  qed
qed

lemma scan_stores:
  assumes "(b, occ) \<in> set t" and "int (length b) + 1 \<le> mx" and "i \<in> set occ"
    and "1 < length (find_matches crypt_text (py_slice crypt_text i (i + (int (length b) + 1))) occ)"
  shows "fst (maximize_scan crypt_text mx t st)
   \<and> py_slice crypt_text i (i + (int (length b) + 1)) \<in> fst ` set (snd (maximize_scan crypt_text mx t st))"
  using assms(1)
proof (induction t arbitrary: st)
  case Nil
  then show ?case by simp
next
  case (Cons a t)
  obtain b1 occ1 where a: "a = (b1, occ1)" by (cases a)
  let ?st = "if int (length b1) + 1 > mx then st
             else maximize_occurrences crypt_text occ1 (int (length b1) + 1) occ1 st"
  have step: "maximize_scan crypt_text mx (a # t) st = maximize_scan crypt_text mx t ?st"
    using a by (simp add: Let_def)
  show ?case
  proof (cases "(b, occ) = a")
    case True
    with a assms(2-4) have "fst ?st \<and> py_slice crypt_text i (i + (int (length b) + 1)) \<in> fst ` set (snd ?st)"
      using occurrences_stores[of i occ crypt_text "int (length b) + 1" occ st] by auto
    with scan_grows[of ?st crypt_text mx t] show ?thesis unfolding step by blast
  next
    case False
    with Cons.prems have "(b, occ) \<in> set t" by auto
    from Cons.IH[OF this, of ?st] show ?thesis unfolding step .
  qed
qed

lemma scan_changed:
  "fst (maximize_scan crypt_text mx t st) \<Longrightarrow>
   fst st \<or> (\<exists>base\<in>set t. int (length (fst base)) + 1 \<le> mx)"
proof (induction t arbitrary: st)
  case Nil
  then show ?case by simp
next
  case (Cons a t)
  obtain b occ where a: "a = (b, occ)" by (cases a)
  show ?case
  proof (cases "int (length b) + 1 > mx")
    case True
    with Cons.prems a have "fst (maximize_scan crypt_text mx t st)" by simp
    from Cons.IH[OF this] show ?thesis by auto
  next
    case False
    then show ?thesis using a by auto
  qed
qed

lemma occurrences_is_dict:
  "is_dict (snd st) \<Longrightarrow> is_dict (snd (maximize_occurrences crypt_text occ tlen idxs st))"
  by (induction idxs arbitrary: st) (simp_all add: Let_def dict_set_is_dict)

lemma scan_is_dict:
  "is_dict (snd st) \<Longrightarrow> is_dict (snd (maximize_scan crypt_text mx t st))"
proof (induction t arbitrary: st)
  case Nil
  then show ?case by simp
next
  case (Cons a t)
  obtain b occ where a: "a = (b, occ)" by (cases a)
  from Cons show ?case by (simp add: a Let_def occurrences_is_dict)
qed

subsection \<open>Ascending lists of positions\<close>

lemma dict_append_entries:
  "e \<in> set (dict_append d k x) \<Longrightarrow>
   e \<in> set d \<or> (\<exists>v. (k, v) \<in> set d \<and> e = (k, v @ [x]))"
  by (induction d k x rule: dict_append.induct) (auto split: if_splits)

lemma dict_set_fresh: "k \<notin> fst ` set d \<Longrightarrow> dict_set d k v = d @ [(k, v)]"
  by (induction d k v rule: dict_set.induct) auto

lemma dict_append_last:
  "k \<notin> fst ` set d \<Longrightarrow> dict_append (d @ [(k, v)]) k x = d @ [(k, v @ [x])]"
  by (induction d k x rule: dict_append.induct) auto

lemma initialize_step_entries:
  assumes "e \<in> set (if k \<in> set (map fst d) then dict_append d k x
                      else dict_append (dict_set d k []) k x)"
  shows "e \<in> set d \<or> e = (k, [x]) \<or> (\<exists>v. (k, v) \<in> set d \<and> e = (k, v @ [x]))"
proof (cases "k \<in> set (map fst d)")
  case True
  with assms dict_append_entries[of e d k x] show ?thesis by auto
next
  case False
  then have "dict_append (dict_set d k []) k x = d @ [(k, [x])]"
    by (simp add: dict_set_fresh dict_append_last)
  with assms False show ?thesis by auto
qed

lemma initialize_scan_ascending:
  assumes "sorted_wrt (<) idxs"
    and "\<forall>e\<in>set t. sorted_wrt (<) (snd e) \<and> (\<forall>i\<in>set (snd e). \<forall>j\<in>set idxs. i < int j)"
  shows "\<forall>e\<in>set (initialize_scan crypt_text mn idxs t). sorted_wrt (<) (snd e)"
  using assms
proof (induction idxs arbitrary: t)
  case Nil
  then show ?case by simp
next
  case (Cons index idxs)
  show ?case
  proof (cases "int index + mn > int (length crypt_text)")
    case True
    with Cons.prems show ?thesis by simp
  next
    case False
    let ?cur = "py_slice crypt_text (int index) (int index + mn)"
    let ?t = "if ?cur \<in> set (map fst t) then dict_append t ?cur (int index)
              else dict_append (dict_set t ?cur []) ?cur (int index)"
    have step: "initialize_scan crypt_text mn (index # idxs) t = initialize_scan crypt_text mn idxs ?t"
      using False by (simp add: Let_def)
    from Cons.prems(1) have later: "\<forall>j\<in>set idxs. index < j" and rest: "sorted_wrt (<) idxs"
      by simp_all
    have "\<forall>e\<in>set ?t. sorted_wrt (<) (snd e) \<and> (\<forall>i\<in>set (snd e). \<forall>j\<in>set idxs. i < int j)"
    proof
      fix e assume "e \<in> set ?t"
      from initialize_step_entries[OF this]
      consider (old) "e \<in> set t" | (fresh) "e = (?cur, [int index])"
        | (more) v where "(?cur, v) \<in> set t" "e = (?cur, v @ [int index])"
        by blast
      then show "sorted_wrt (<) (snd e) \<and> (\<forall>i\<in>set (snd e). \<forall>j\<in>set idxs. i < int j)"
      proof cases
        case old
        with Cons.prems(2) show ?thesis by auto
      next
        case fresh
        with later show ?thesis by auto
      next
        case more
        from Cons.prems(2) more(1)
        have v: "sorted_wrt (<) v" and below: "\<forall>i\<in>set v. i < int index"
          and all: "\<forall>i\<in>set v. \<forall>j\<in>set idxs. i < int j"
          by (auto dest!: bspec[where x = "(?cur, v)"])
        from v below have "sorted_wrt (<) (v @ [int index])"
          by (simp add: sorted_wrt_append)
        with all later more(2) show ?thesis by auto
      qed
    qed
    from Cons.IH[OF rest this] show ?thesis unfolding step .
  qed
qed

lemma initialize_patterns_entries:
  "e \<in> set (initialize_patterns crypt_text mn) \<Longrightarrow>
   e \<in> set (initialize_scan crypt_text mn [0..<length crypt_text] []) \<and> 1 < length (snd e)"
  by (auto simp: initialize_patterns_def Let_def dest!: set_takeWhileD)

lemma initialize_patterns_ascending:
  "e \<in> set (initialize_patterns crypt_text mn) \<Longrightarrow> ascending_pair (snd e)"
proof -
  assume "e \<in> set (initialize_patterns crypt_text mn)"
  then have e: "e \<in> set (initialize_scan crypt_text mn [0..<length crypt_text] [])"
    and two: "1 < length (snd e)"
    using initialize_patterns_entries by blast+
  have "\<forall>e\<in>set (initialize_scan crypt_text mn [0..<length crypt_text] []). sorted_wrt (<) (snd e)"
    by (rule initialize_scan_ascending) simp_all
  with e two show ?thesis by (simp add: ascending_pair_def)
qed

lemma extension_ascending:
  "extension crypt_text mx base e \<Longrightarrow> sorted_wrt (<) (snd base) \<Longrightarrow> ascending_pair (snd e)"
  by (auto simp: extension_def ascending_pair_def find_matches_sorted)

lemma scan_ascending:
  assumes "\<forall>base\<in>set t. sorted_wrt (<) (snd base)"
    and "e \<in> set (snd (maximize_scan crypt_text mx t (False, [])))"
  shows "ascending_pair (snd e)"
proof -
  from scan_entries[OF assms(2)] obtain base where "base \<in> set t" "extension crypt_text mx base e"
    by auto
  with assms(1) extension_ascending show ?thesis by blast
qed

lemma maximize_ascending:
  assumes "maximize_patterns crypt_text t mx = Some result"
  shows "(\<forall>base\<in>set t. sorted_wrt (<) (snd base)) \<longrightarrow>
         (\<forall>e\<in>set result. e \<in> set t \<or> ascending_pair (snd e))"
proof (rule maximize_patterns.raw_induct
    [where P = "\<lambda>crypt_text t mx result. (\<forall>base\<in>set t. sorted_wrt (<) (snd base)) \<longrightarrow>
         (\<forall>e\<in>set result. e \<in> set t \<or> ascending_pair (snd e))", OF _ assms])
  fix f :: "string \<Rightarrow> pattern_table \<Rightarrow> int \<Rightarrow> pattern_table option"
  fix crypt_text patterns maximum_pattern_length y
  assume IH: "\<And>a b c y. f a b c = Some y \<Longrightarrow>
      (\<forall>base\<in>set b. sorted_wrt (<) (snd base)) \<longrightarrow> (\<forall>e\<in>set y. e \<in> set b \<or> ascending_pair (snd e))"
  assume body: "(let st = maximize_scan crypt_text maximum_pattern_length patterns (False, [])
      in if fst st then
           Option.bind (f crypt_text (snd st) maximum_pattern_length)
             (\<lambda>recursive_patterns. Some (merge_patterns patterns recursive_patterns))
         else Some patterns) = Some y"
  let ?st = "maximize_scan crypt_text maximum_pattern_length patterns (False, [])"
  show "(\<forall>base\<in>set patterns. sorted_wrt (<) (snd base)) \<longrightarrow>
         (\<forall>e\<in>set y. e \<in> set patterns \<or> ascending_pair (snd e))"
  proof
    assume asc: "\<forall>base\<in>set patterns. sorted_wrt (<) (snd base)"
    show "\<forall>e\<in>set y. e \<in> set patterns \<or> ascending_pair (snd e)"
    proof (cases "fst ?st")
      case False
      with body have "y = patterns" by (simp add: Let_def)
      then show ?thesis by simp
    next
      case True
      with body obtain r where r: "f crypt_text (snd ?st) maximum_pattern_length = Some r"
        and y: "y = merge_patterns patterns r"
        by (auto simp: Let_def split: bind_splits)
      have new: "\<forall>e\<in>set (snd ?st). ascending_pair (snd e)"
        using scan_ascending[OF asc] by blast
      then have "\<forall>base\<in>set (snd ?st). sorted_wrt (<) (snd base)"
        by (simp add: ascending_pair_def)
      with IH[OF r] have "\<forall>e\<in>set r. e \<in> set (snd ?st) \<or> ascending_pair (snd e)" by blast
      with new have "\<forall>e\<in>set r. ascending_pair (snd e)" by blast
      with merge_entries[of patterns r] show ?thesis unfolding y by blast
    qed
  qed
qed

text \<open>
  C7: every pattern table produced by \<open>initialize_patterns\<close> maps each pattern to a
  strictly ascending list of at least two positions, and so does every table that
  \<open>maximize_patterns\<close> returns for it. More generally, on a table whose lists are
  strictly ascending, every entry that the loops of \<open>maximize_patterns\<close> store, and
  every entry of the returned table that was not in the given one, has at least two
  positions in strictly ascending order.
\<close>

theorem occurrence_lists_ascending:
  "(\<forall>e\<in>set (initialize_patterns crypt_text minimum_pattern_length). ascending_pair (snd e))
   \<and> (\<forall>result.
        maximize_patterns crypt_text (initialize_patterns crypt_text minimum_pattern_length)
          maximum_pattern_length = Some result
        \<longrightarrow> (\<forall>e\<in>set result. ascending_pair (snd e)))
   \<and> ((\<forall>base\<in>set patterns. sorted_wrt (<) (snd base)) \<longrightarrow>
        (\<forall>e\<in>set (snd (maximize_scan crypt_text maximum_pattern_length patterns (False, []))).
           ascending_pair (snd e))
        \<and> (\<forall>result. maximize_patterns crypt_text patterns maximum_pattern_length = Some result
              \<longrightarrow> (\<forall>e\<in>set result. e \<in> set patterns \<or> ascending_pair (snd e))))"
proof (intro conjI allI impI)
  let ?init = "initialize_patterns crypt_text minimum_pattern_length"
  show init: "\<forall>e\<in>set ?init. ascending_pair (snd e)"
    using initialize_patterns_ascending by blast
  show "\<forall>e\<in>set result. ascending_pair (snd e)"
    if "maximize_patterns crypt_text ?init maximum_pattern_length = Some result" for result
  proof -
    from init have "\<forall>base\<in>set ?init. sorted_wrt (<) (snd base)"
      by (simp add: ascending_pair_def)
    with maximize_ascending[OF that] init show ?thesis by blast
  qed
  show "\<forall>e\<in>set (snd (maximize_scan crypt_text maximum_pattern_length patterns (False, []))).
           ascending_pair (snd e)"
    if "\<forall>base\<in>set patterns. sorted_wrt (<) (snd base)"
    using scan_ascending[OF that] by blast
  show "\<forall>e\<in>set result. e \<in> set patterns \<or> ascending_pair (snd e)"
    if "\<forall>base\<in>set patterns. sorted_wrt (<) (snd base)"
      and "maximize_patterns crypt_text patterns maximum_pattern_length = Some result" for result
    using maximize_ascending[OF that(2)] that(1) by blast
qed

theorem occurrence_lists_ascending_witness:
  "list_all (\<lambda>e. ascending_pair (snd e)) (initialize_patterns ''csastpkvsiqutgqucsastpiuaqjb'' 3)
   \<and> (\<exists>result. maximize_patterns ''csastpkvsiqutgqucsastpiuaqjb''
                   (initialize_patterns ''csastpkvsiqutgqucsastpiuaqjb'' 3) 6 = Some result
          \<and> length result = 10
          \<and> list_all (\<lambda>e. ascending_pair (snd e)) result)"
proof -
  let ?c = "''csastpkvsiqutgqucsastpiuaqjb''"
  have m: "maximize_patterns ?c (initialize_patterns ?c 3) 6 =
      Some [(''csa'', [0, 16]), (''sas'', [1, 17]), (''ast'', [2, 18]), (''stp'', [3, 19]),
            (''csas'', [0, 16]), (''sast'', [1, 17]), (''astp'', [2, 18]),
            (''csast'', [0, 16]), (''sastp'', [1, 17]), (''csastp'', [0, 16])]"
    by code_simp
  from occurrence_lists_ascending[of ?c 3 6 "[]"] m show ?thesis
    by (simp add: list_all_iff)
qed

subsection \<open>Extensions of valid entries\<close>

lemma extension_valid:
  assumes ext: "extension crypt_text mx (b, occ) e"
    and valid: "list_all (occurs_at crypt_text b) occ"
  shows "list_all (occurs_at crypt_text (fst e)) (snd e)"
    and "set (snd e) \<subseteq> set occ"
    and "(length (fst e) = Suc (length b) \<and> butlast (fst e) = b)
         \<or> (fst e = b \<and> snd e = occ \<and> int (length crypt_text) - int (length b) \<in> set occ)"
proof -
  from ext obtain i where i: "i \<in> set occ"
    and q: "fst e = py_slice crypt_text i (i + (int (length b) + 1))"
    and ms: "snd e = find_matches crypt_text (fst e) occ"
    by (auto simp: extension_def list_ex_iff)
  from valid have all: "\<forall>k\<in>set occ. occurs_at crypt_text b k" by (simp add: list_all_iff)
  show sub: "set (snd e) \<subseteq> set occ" unfolding ms by (rule find_matches_subset)
  show "list_all (occurs_at crypt_text (fst e)) (snd e)"
    unfolding list_all_iff
  proof
    fix k assume k: "k \<in> set (snd e)"
    with sub all have "0 \<le> k" by (auto simp: occurs_at_def)
    with k show "occurs_at crypt_text (fst e) k" unfolding ms by (intro find_matches_occurs)
  qed
  from all i have oi: "occurs_at crypt_text b i" by blast
  show "(length (fst e) = Suc (length b) \<and> butlast (fst e) = b)
         \<or> (fst e = b \<and> snd e = occ \<and> int (length crypt_text) - int (length b) \<in> set occ)"
  proof (cases "nat i + length b < length crypt_text")
    case True
    with tentative_pattern[OF oi] q show ?thesis by simp
  next
    case False
    with tentative_pattern[OF oi] q have same: "fst e = b" by simp
    from oi False have "nat i + length b = length crypt_text" and "0 \<le> i"
      by (simp_all add: occurs_at_iff)
    then have "int (length crypt_text) - int (length b) = i" by linarith
    with i same ms find_matches_all[OF valid] show ?thesis by simp
  qed
qed

subsection \<open>Tables on which the recursion does not stop\<close>

text \<open>
  At a position \<open>m\<close> characters before the end of the ciphertext, the candidate for
  a pattern of length \<open>m\<close> is the pattern itself, and it matches at every position of
  the pattern. So a stuck table is followed by a stuck table, and the recursion of
  \<open>maximize_patterns\<close> has no end on it.
\<close>

lemma stuck_step:
  assumes "stuck crypt_text mx m t"
  shows "fst (maximize_scan crypt_text mx t (False, []))"
    and "stuck crypt_text mx m (snd (maximize_scan crypt_text mx t (False, [])))"
proof -
  let ?st = "maximize_scan crypt_text mx t (False, [])"
  let ?n = "int (length crypt_text)"
  from assms have valid: "\<forall>e\<in>set t. list_all (occurs_at crypt_text (fst e)) (snd e)"
    and long: "\<forall>e\<in>set t. m \<le> length (fst e)"
    and mx: "int m < mx"
    by (simp_all add: stuck_def valid_table_def list_all_iff)
  from assms obtain p occ where p: "(p, occ) \<in> set t" and len: "length p = m"
    and two: "2 \<le> length occ" and last: "?n - int m \<in> set occ"
    by (auto simp: stuck_def list_ex_iff)
  from valid p have vp: "list_all (occurs_at crypt_text p) occ" by auto
  with last have at: "occurs_at crypt_text p (?n - int m)" by (simp add: list_all_iff)
  have "\<not> nat (?n - int m) + length p < length crypt_text" using at len by (simp add: occurs_at_iff)
  with tentative_pattern[OF at]
  have cand: "py_slice crypt_text (?n - int m) (?n - int m + (int (length p) + 1)) = p" by simp
  have ms: "1 < length (find_matches crypt_text p occ)"
    using find_matches_all[OF vp] two by simp
  from scan_stores[of p occ t mx "?n - int m" crypt_text "(False, [])"] p len mx last cand ms
  have ch: "fst ?st" and key: "p \<in> fst ` set (snd ?st)" by simp_all
  show "fst ?st" by (rule ch)
  have ext: "\<exists>base\<in>set t. extension crypt_text mx base e" if "e \<in> set (snd ?st)" for e
    using scan_entries[OF that] by simp
  have valid_new: "\<forall>e\<in>set (snd ?st). list_all (occurs_at crypt_text (fst e)) (snd e)"
  proof
    fix e assume "e \<in> set (snd ?st)"
    from ext[OF this] obtain b ob where b: "(b, ob) \<in> set t" "extension crypt_text mx (b, ob) e"
      by auto
    with valid have "list_all (occurs_at crypt_text b) ob" by auto
    from extension_valid(1)[OF b(2) this] show "list_all (occurs_at crypt_text (fst e)) (snd e)" .
  qed
  have long_new: "\<forall>e\<in>set (snd ?st). m \<le> length (fst e)"
  proof
    fix e assume "e \<in> set (snd ?st)"
    from ext[OF this] obtain b ob where b: "(b, ob) \<in> set t" "extension crypt_text mx (b, ob) e"
      by auto
    with valid have "list_all (occurs_at crypt_text b) ob" by auto
    from extension_valid(3)[OF b(2) this] long b(1) show "m \<le> length (fst e)" by auto
  qed
  from key obtain ms where e: "(p, ms) \<in> set (snd ?st)" by auto
  from ext[OF e] obtain b ob where b: "(b, ob) \<in> set t" "extension crypt_text mx (b, ob) (p, ms)"
    by auto
  with valid have vb: "list_all (occurs_at crypt_text b) ob" by auto
  from long b(1) have "m \<le> length b" by auto
  with extension_valid(3)[OF b(2) vb] len
  have "p = b \<and> ms = ob \<and> ?n - int (length b) \<in> set ob" by auto
  moreover from b(2) have "1 < length ms" by (auto simp: extension_def)
  ultimately have "2 \<le> length ms \<and> ?n - int m \<in> set ms" using len by auto
  with e len have "\<exists>e\<in>set (snd ?st). length (fst e) = m \<and> 2 \<le> length (snd e)
      \<and> ?n - int m \<in> set (snd e)" by force
  with valid_new long_new mx show "stuck crypt_text mx m (snd ?st)"
    by (simp add: stuck_def valid_table_def list_all_iff list_ex_iff)
qed

lemma stuck_diverges:
  assumes "stuck crypt_text mx m t"
  shows "maximize_patterns crypt_text t mx = None"
proof (cases "maximize_patterns crypt_text t mx")
  case None
  then show ?thesis .
next
  case (Some y)
  have "\<not> stuck crypt_text mx m t"
  proof (rule maximize_patterns.raw_induct
      [where P = "\<lambda>crypt_text t mx y. \<not> stuck crypt_text mx m t", OF _ Some])
    fix f :: "string \<Rightarrow> pattern_table \<Rightarrow> int \<Rightarrow> pattern_table option"
    fix crypt_text patterns maximum_pattern_length y
    assume IH: "\<And>a b c y. f a b c = Some y \<Longrightarrow> \<not> stuck a c m b"
    assume body: "(let st = maximize_scan crypt_text maximum_pattern_length patterns (False, [])
        in if fst st then
             Option.bind (f crypt_text (snd st) maximum_pattern_length)
               (\<lambda>recursive_patterns. Some (merge_patterns patterns recursive_patterns))
           else Some patterns) = Some y"
    let ?st = "maximize_scan crypt_text maximum_pattern_length patterns (False, [])"
    show "\<not> stuck crypt_text maximum_pattern_length m patterns"
    proof
      assume s: "stuck crypt_text maximum_pattern_length m patterns"
      from stuck_step(1)[OF s] body
      obtain r where "f crypt_text (snd ?st) maximum_pattern_length = Some r"
        by (auto simp: Let_def split: bind_splits)
      from IH[OF this] stuck_step(2)[OF s] show False by blast
    qed
  qed
  with assms show ?thesis by blast
qed

subsection \<open>The returned table on uniform valid tables\<close>

lemma map_of_dict: "is_dict t \<Longrightarrow> (k, v) \<in> set t \<Longrightarrow> map_of t k = Some v"
  by (simp add: is_dict_def)

lemma maximize_uniform:
  assumes "is_dict t" and "uniform_table m t" and "valid_table crypt_text t"
    and "maximize_patterns crypt_text t mx = Some result"
  shows "is_dict result
    \<and> (\<forall>p occ. map_of result p = Some occ \<longrightarrow> m \<le> length p)
    \<and> (\<forall>p. length p = m \<longrightarrow> map_of result p = map_of t p)
    \<and> (\<forall>p occ. map_of result p = Some occ \<and> m < length p \<longrightarrow>
          (\<exists>occ1. map_of result (butlast p) = Some occ1 \<and> set occ \<subseteq> set occ1))"
  using assms
proof (induction "nat (mx - int m)" arbitrary: m t result rule: less_induct)
  case less
  let ?st = "maximize_scan crypt_text mx t (False, [])"
  from less.prems(2) have uni: "\<forall>e\<in>set t. length (fst e) = m"
    by (simp add: uniform_table_def list_all_iff)
  from less.prems(3) have valid: "\<forall>e\<in>set t. list_all (occurs_at crypt_text (fst e)) (snd e)"
    by (simp add: valid_table_def list_all_iff)
  have keys_t: "length p = m" if "map_of t p = Some occ" for p occ
    using map_of_SomeD[OF that] uni by auto
  show ?case
  proof (cases "fst ?st")
    case False
    with less.prems(4) have "result = t"
      by (simp add: maximize_patterns.simps[of crypt_text t mx] Let_def)
    with less.prems(1) keys_t show ?thesis by auto
  next
    case True
    with less.prems(4) obtain r where r: "maximize_patterns crypt_text (snd ?st) mx = Some r"
      and result: "result = merge_patterns t r"
      by (auto simp: maximize_patterns.simps[of crypt_text t mx] Let_def split: bind_splits)
    from scan_changed[OF True] uni have mx: "int m < mx" by auto
    have not_stuck: "\<not> stuck crypt_text mx m t"
      using stuck_diverges less.prems(4) by fastforce
    have ext: "\<exists>base\<in>set t. extension crypt_text mx base e" if "e \<in> set (snd ?st)" for e
      using scan_entries[OF that] by simp
    have new: "length (fst e) = Suc m \<and> list_all (occurs_at crypt_text (fst e)) (snd e)
        \<and> (\<exists>occ. (butlast (fst e), occ) \<in> set t \<and> set (snd e) \<subseteq> set occ)"
      if e: "e \<in> set (snd ?st)" for e
    proof -
      from ext[OF e] obtain b ob where b: "(b, ob) \<in> set t" "extension crypt_text mx (b, ob) e"
        by auto
      with valid have vb: "list_all (occurs_at crypt_text b) ob" by auto
      from uni b(1) have lb: "length b = m" by auto
      have "\<not> (fst e = b \<and> snd e = ob \<and> int (length crypt_text) - int (length b) \<in> set ob)"
      proof
        assume a: "fst e = b \<and> snd e = ob \<and> int (length crypt_text) - int (length b) \<in> set ob"
        from b(2) have "1 < length (snd e)" by (auto simp: extension_def)
        with a lb b(1) have "\<exists>x\<in>set t. length (fst x) = m \<and> 2 \<le> length (snd x)
            \<and> int (length crypt_text) - int m \<in> set (snd x)" by force
        with less.prems(3) uni mx have "stuck crypt_text mx m t"
          by (simp add: stuck_def list_all_iff list_ex_iff)
        with not_stuck show False ..
      qed
      with extension_valid(3)[OF b(2) vb] have "length (fst e) = Suc (length b) \<and> butlast (fst e) = b"
        by blast
      with extension_valid(1,2)[OF b(2) vb] lb b(1) show ?thesis by auto
    qed
    have d_new: "is_dict (snd ?st)" by (rule scan_is_dict) (simp add: is_dict_def)
    have u_new: "uniform_table (Suc m) (snd ?st)"
      using new by (simp add: uniform_table_def list_all_iff)
    have v_new: "valid_table crypt_text (snd ?st)"
      using new by (simp add: valid_table_def list_all_iff)
    have "nat (mx - int (Suc m)) < nat (mx - int m)" using mx by simp
    from less.hyps[OF this d_new u_new v_new r]
    have d_r: "is_dict r"
      and long_r: "\<And>p occ. map_of r p = Some occ \<Longrightarrow> Suc m \<le> length p"
      and level_r: "\<And>p. length p = Suc m \<Longrightarrow> map_of r p = map_of (snd ?st) p"
      and above_r: "\<And>p occ. map_of r p = Some occ \<Longrightarrow> Suc m < length p \<Longrightarrow>
          \<exists>occ1. map_of r (butlast p) = Some occ1 \<and> set occ \<subseteq> set occ1"
      by blast+
    have look: "map_of result x = (case map_of r x of None \<Rightarrow> map_of t x | Some v \<Rightarrow> Some v)" for x
      unfolding result by (rule map_of_merge[OF d_r])
    have short_r: "map_of r p = None" if "length p = m" for p
    proof (cases "map_of r p")
      case None
      then show ?thesis .
    next
      case (Some occ)
      from long_r[OF this] that show ?thesis by simp
    qed
    have c1: "is_dict result" unfolding result using less.prems(1) by (rule merge_is_dict)
    have c2: "m \<le> length p" if "map_of result p = Some occ" for p occ
    proof (cases "map_of r p")
      case None
      with that look[of p] keys_t show ?thesis by auto
    next
      case (Some v)
      from long_r[OF this] show ?thesis by simp
    qed
    have c3: "map_of result p = map_of t p" if "length p = m" for p
      using look[of p] short_r[OF that] by simp
    have c4: "\<exists>occ1. map_of result (butlast p) = Some occ1 \<and> set occ \<subseteq> set occ1"
      if p: "map_of result p = Some occ" and lp: "m < length p" for p occ
    proof -
      have in_r: "map_of r p = Some occ"
      proof (cases "map_of r p")
        case None
        with p look[of p] have "map_of t p = Some occ" by simp
        from keys_t[OF this] lp show ?thesis by simp
      next
        case (Some v)
        with p look[of p] show ?thesis by simp
      qed
      show ?thesis
      proof (cases "Suc m < length p")
        case True
        from above_r[OF in_r True] obtain occ1
          where "map_of r (butlast p) = Some occ1" "set occ \<subseteq> set occ1" by blast
        with look[of "butlast p"] show ?thesis by simp
      next
        case False
        with lp have len: "length p = Suc m" by simp
        from level_r[OF len] in_r have "map_of (snd ?st) p = Some occ" by simp
        then have "(p, occ) \<in> set (snd ?st)" by (rule map_of_SomeD)
        from new[OF this] obtain occ1 where o: "(butlast p, occ1) \<in> set t" "set occ \<subseteq> set occ1"
          by auto
        from map_of_dict[OF less.prems(1) o(1)] have "map_of t (butlast p) = Some occ1" .
        moreover have "length (butlast p) = m" using len by simp
        ultimately have "map_of result (butlast p) = Some occ1" using c3 by simp
        with o(2) show ?thesis by blast
      qed
    qed
    from c1 c2 c3 c4 show ?thesis by blast
  qed
qed

subsection \<open>The table of initialize\_patterns is a uniform valid dict\<close>

lemma dict_append_keys: "map fst (dict_append d k x) = map fst d"
  by (induction d k x rule: dict_append.induct) auto

lemma initialize_step_is_dict:
  "is_dict d \<Longrightarrow>
   is_dict (if k \<in> set (map fst d) then dict_append d k x else dict_append (dict_set d k []) k x)"
  by (simp add: is_dict_def dict_append_keys dict_set_is_dict[unfolded is_dict_def])

lemma initialize_scan_is_dict:
  "is_dict t \<Longrightarrow> is_dict (initialize_scan crypt_text mn idxs t)"
proof (induction idxs arbitrary: t)
  case Nil
  then show ?case by simp
next
  case (Cons index idxs)
  show ?case
  proof (cases "int index + mn > int (length crypt_text)")
    case True
    with Cons.prems show ?thesis by simp
  next
    case False
    let ?cur = "py_slice crypt_text (int index) (int index + mn)"
    let ?t = "if ?cur \<in> set (map fst t) then dict_append t ?cur (int index)
              else dict_append (dict_set t ?cur []) ?cur (int index)"
    have step: "initialize_scan crypt_text mn (index # idxs) t = initialize_scan crypt_text mn idxs ?t"
      using False by (simp add: Let_def)
    have "is_dict ?t" using Cons.prems by (rule initialize_step_is_dict)
    from Cons.IH[OF this] show ?thesis unfolding step .
  qed
qed

lemma current_pattern_occurs:
  assumes "0 \<le> mn" and "\<not> int index + mn > int (length crypt_text)"
  shows "length (py_slice crypt_text (int index) (int index + mn)) = nat mn"
    and "occurs_at crypt_text (py_slice crypt_text (int index) (int index + mn)) (int index)"
proof -
  let ?cur = "py_slice crypt_text (int index) (int index + mn)"
  have "nat (int index + mn) - nat (int index) = nat mn" using assms(1) by simp
  then have cur: "?cur = take (nat mn) (drop index crypt_text)"
    using assms(1) by (simp add: py_slice_nonneg)
  from assms have fit: "index + nat mn \<le> length crypt_text" by linarith
  then show len: "length ?cur = nat mn" unfolding cur by simp
  show "occurs_at crypt_text ?cur (int index)"
    unfolding occurs_at_iff using len fit cur by simp
qed

lemma initialize_scan_valid:
  assumes "0 \<le> mn"
    and "\<forall>e\<in>set t. length (fst e) = nat mn \<and> list_all (occurs_at crypt_text (fst e)) (snd e)"
  shows "\<forall>e\<in>set (initialize_scan crypt_text mn idxs t).
           length (fst e) = nat mn \<and> list_all (occurs_at crypt_text (fst e)) (snd e)"
  using assms(2)
proof (induction idxs arbitrary: t)
  case Nil
  then show ?case by simp
next
  case (Cons index idxs)
  show ?case
  proof (cases "int index + mn > int (length crypt_text)")
    case True
    with Cons.prems show ?thesis by simp
  next
    case False
    let ?cur = "py_slice crypt_text (int index) (int index + mn)"
    let ?t = "if ?cur \<in> set (map fst t) then dict_append t ?cur (int index)
              else dict_append (dict_set t ?cur []) ?cur (int index)"
    have step: "initialize_scan crypt_text mn (index # idxs) t = initialize_scan crypt_text mn idxs ?t"
      using False by (simp add: Let_def)
    note cur = current_pattern_occurs[OF assms(1) False]
    have "\<forall>e\<in>set ?t. length (fst e) = nat mn \<and> list_all (occurs_at crypt_text (fst e)) (snd e)"
    proof
      fix e assume "e \<in> set ?t"
      from initialize_step_entries[OF this]
      consider (old) "e \<in> set t" | (fresh) "e = (?cur, [int index])"
        | (more) v where "(?cur, v) \<in> set t" "e = (?cur, v @ [int index])"
        by blast
      then show "length (fst e) = nat mn \<and> list_all (occurs_at crypt_text (fst e)) (snd e)"
      proof cases
        case old
        with Cons.prems show ?thesis by blast
      next
        case fresh
        with cur show ?thesis by simp
      next
        case more
        from Cons.prems more(1) have "list_all (occurs_at crypt_text ?cur) v" by force
        with cur more(2) show ?thesis by simp
      qed
    qed
    from Cons.IH[OF this] show ?thesis unfolding step .
  qed
qed

lemma distinct_keys_insort:
  "distinct (map g (insort_key f x xs)) \<longleftrightarrow> g x \<notin> g ` set xs \<and> distinct (map g xs)"
  by (induction xs) (auto simp: set_insort_key)

lemma distinct_keys_sort: "distinct (map g (sort_key f xs)) \<longleftrightarrow> distinct (map g xs)"
  by (induction xs) (simp_all add: distinct_keys_insort)

lemma distinct_keys_takeWhile: "distinct (map g xs) \<Longrightarrow> distinct (map g (takeWhile P xs))"
proof -
  assume d: "distinct (map g xs)"
  have "map g (takeWhile P xs) = take (length (takeWhile P xs)) (map g xs)"
    by (metis takeWhile_eq_take take_map)
  with d show ?thesis by (simp add: distinct_take)
qed

lemma initialize_patterns_wellformed:
  assumes "0 \<le> mn"
  shows "is_dict (initialize_patterns crypt_text mn)"
    and "uniform_table (nat mn) (initialize_patterns crypt_text mn)"
    and "valid_table crypt_text (initialize_patterns crypt_text mn)"
proof -
  let ?scan = "initialize_scan crypt_text mn [0..<length crypt_text] []"
  have "is_dict ?scan" by (rule initialize_scan_is_dict) (simp add: is_dict_def)
  then show "is_dict (initialize_patterns crypt_text mn)"
    by (simp add: initialize_patterns_def Let_def is_dict_def distinct_keys_sort
        distinct_keys_takeWhile)
  have "\<forall>e\<in>set ?scan. length (fst e) = nat mn \<and> list_all (occurs_at crypt_text (fst e)) (snd e)"
    by (rule initialize_scan_valid[OF assms]) simp
  with initialize_patterns_entries[of _ crypt_text mn]
  have all: "\<forall>e\<in>set (initialize_patterns crypt_text mn).
      length (fst e) = nat mn \<and> list_all (occurs_at crypt_text (fst e)) (snd e)" by blast
  from all show "uniform_table (nat mn) (initialize_patterns crypt_text mn)"
    by (simp add: uniform_table_def list_all_iff)
  from all show "valid_table crypt_text (initialize_patterns crypt_text mn)"
    by (simp add: valid_table_def list_all_iff)
qed

text \<open>
  C5, as the specification states it, speaks of every initial pattern table. On the
  ciphertext "abcabxabcy" take the table that lists "ab" at 0 and 3 and "abc" at 0 and
  6: every listed position is an occurrence, and the shortest pattern has length 2.
  \<open>maximize_patterns\<close> finds nothing to add and returns the table as it is, in which
  the positions of "abc" are not among the positions of its prefix "ab".
\<close>

theorem maximize_patterns_monotone_counterexample:
  "is_dict ([(''ab'', [0, 3]), (''abc'', [0, 6])] :: pattern_table)
   \<and> valid_table ''abcabxabcy'' [(''ab'', [0, 3]), (''abc'', [0, 6])]
   \<and> maximize_patterns ''abcabxabcy'' [(''ab'', [0, 3]), (''abc'', [0, 6])] 6
       = Some [(''ab'', [0, 3]), (''abc'', [0, 6])]
   \<and> map_of ([(''ab'', [0, 3]), (''abc'', [0, 6])] :: pattern_table) ''abc'' = Some [0, 6]
   \<and> map_of ([(''ab'', [0, 3]), (''abc'', [0, 6])] :: pattern_table) (butlast ''abc'')
       = Some [0, 3]
   \<and> \<not> set [0, 6] \<subseteq> set [0, 3 :: int]"
proof -
  have "is_dict ([(''ab'', [0, 3]), (''abc'', [0, 6])] :: pattern_table)"
    by (simp add: is_dict_def)
  moreover have "valid_table ''abcabxabcy'' [(''ab'', [0, 3]), (''abc'', [0, 6])]"
    by code_simp
  moreover have "maximize_patterns ''abcabxabcy'' [(''ab'', [0, 3]), (''abc'', [0, 6])] 6
       = Some [(''ab'', [0, 3]), (''abc'', [0, 6])]"
    by code_simp
  ultimately show ?thesis by simp
qed

text \<open>
  C5 (amended): for every ciphertext and every initial pattern table that is a dict of
  patterns of one common length, the minimum, with valid occurrence-index lists,
  whenever \<open>maximize_patterns\<close> returns, each pattern of the returned table that is
  longer than the minimum has its prefix, one character shorter, in the table, and its
  own positions are among the positions of that prefix. For a minimum pattern length
  that is not negative, the table of \<open>initialize_patterns\<close> is such a table.
\<close>

theorem maximize_patterns_monotone:
  "(is_dict patterns \<and> uniform_table m patterns \<and> valid_table crypt_text patterns
      \<and> maximize_patterns crypt_text patterns maximum_pattern_length = Some result
      \<and> map_of result p = Some occ \<and> m < length p
      \<longrightarrow> (\<exists>occ1. map_of result (butlast p) = Some occ1 \<and> set occ \<subseteq> set occ1))
   \<and> (0 \<le> minimum_pattern_length \<longrightarrow>
        is_dict (initialize_patterns crypt_text minimum_pattern_length)
        \<and> uniform_table (nat minimum_pattern_length)
            (initialize_patterns crypt_text minimum_pattern_length)
        \<and> valid_table crypt_text (initialize_patterns crypt_text minimum_pattern_length))"
proof (intro conjI impI)
  assume a: "is_dict patterns \<and> uniform_table m patterns \<and> valid_table crypt_text patterns
      \<and> maximize_patterns crypt_text patterns maximum_pattern_length = Some result
      \<and> map_of result p = Some occ \<and> m < length p"
  then have "maximize_patterns crypt_text patterns maximum_pattern_length = Some result"
    and "is_dict patterns" and "uniform_table m patterns" and "valid_table crypt_text patterns"
    by simp_all
  from maximize_uniform[OF this(2,3,4,1)] a
  show "\<exists>occ1. map_of result (butlast p) = Some occ1 \<and> set occ \<subseteq> set occ1" by blast
next
  assume "0 \<le> minimum_pattern_length"
  then show "is_dict (initialize_patterns crypt_text minimum_pattern_length)"
    and "uniform_table (nat minimum_pattern_length)
            (initialize_patterns crypt_text minimum_pattern_length)"
    and "valid_table crypt_text (initialize_patterns crypt_text minimum_pattern_length)"
    by (rule initialize_patterns_wellformed)+
qed

theorem maximize_patterns_monotone_witness:
  "\<exists>result occ1.
     maximize_patterns ''csastpkvsiqutgqucsastpiuaqjb''
       (initialize_patterns ''csastpkvsiqutgqucsastpiuaqjb'' 3) 6 = Some result
     \<and> map_of result ''csast'' = Some [0, 16]
     \<and> map_of result (butlast ''csast'') = Some occ1
     \<and> set [0, 16] \<subseteq> set occ1"
proof -
  let ?c = "''csastpkvsiqutgqucsastpiuaqjb''"
  let ?r = "[(''csa'', [0, 16]), (''sas'', [1, 17]), (''ast'', [2, 18]), (''stp'', [3, 19]),
            (''csas'', [0, 16]), (''sast'', [1, 17]), (''astp'', [2, 18]),
            (''csast'', [0, 16]), (''sastp'', [1, 17]), (''csastp'', [0 :: int, 16])]"
  have m: "maximize_patterns ?c (initialize_patterns ?c 3) 6 = Some ?r"
    by code_simp
  have look: "map_of ?r ''csast'' = Some [0, 16]" by simp
  have "(0::int) \<le> 3" by simp
  with maximize_patterns_monotone[of "initialize_patterns ?c 3" 3 ?c 6 ?r "''csast''" "[0, 16]" 3]
    m look
  have "\<exists>occ1. map_of ?r (butlast ''csast'') = Some occ1 \<and> set [0, 16] \<subseteq> set occ1"
    by simp
  with m look show ?thesis by blast
qed

end
